theory Spec2Isabelle
  imports Complex_Main "HOL-Library.Word" "HOL-Library.Sublist"
begin

unbundle bit_operations_syntax

section \<open>anon-infer-proxy: a shallow embedding\<close>

text \<open>
  The development follows the TypeScript sources: the crypto utilities
  (\<^verbatim>\<open>utils/crypto.ts\<close>), the in-memory storage (\<^verbatim>\<open>storage/memoryStorage.ts\<close>),
  the token detector (\<^verbatim>\<open>utils/tokenDetector.ts\<close>) and the engine
  (\<^verbatim>\<open>core/anonEngine.ts\<close>).

  A JavaScript string is modelled as a \<^typ>\<open>string\<close>: one \<^typ>\<open>char\<close> per code unit
  (code units below 256). Thrown errors are values of \<open>error\<close>; a function that can
  throw returns \<open>error + 'a\<close>. The clock (\<^verbatim>\<open>Date.now()\<close>), the random source
  (\<^verbatim>\<open>randomBytes\<close>) and the digests of Node's \<^verbatim>\<open>crypto\<close> module are inputs of the
  model.
\<close>

subsection \<open>Errors (core/types.ts)\<close>

datatype error =
    ValidationError string
  | StorageError string
  | SignatureError string

subsection \<open>Crypto utilities (utils/crypto.ts)\<close>

type_synonym byte = "8 word"

text \<open>
  Node's \<^verbatim>\<open>createHash('sha256')\<close> and \<^verbatim>\<open>createHmac('sha256', secret)\<close> are library
  code: the model takes the raw digests as parameters. \<open>hmac_sha256 secret data\<close> is the
  digest of \<^verbatim>\<open>createHmac('sha256', secret).update(data)\<close>.
\<close>

record Platform =
  sha256 :: "string \<Rightarrow> byte list"
  hmac_sha256 :: "string \<Rightarrow> string \<Rightarrow> byte list"

text \<open>\<^verbatim>\<open>digest('base64')\<close>: the standard alphabet, padded with \<^verbatim>\<open>=\<close>.\<close>

definition base64_alphabet :: string where
  "base64_alphabet =
     ''ABCDEFGHIJKLMNOPQRSTUVWXYZabcdefghijklmnopqrstuvwxyz0123456789+/''"

definition b64 :: "nat \<Rightarrow> char" where
  "b64 n = base64_alphabet ! (n mod 64)"

fun base64 :: "byte list \<Rightarrow> string" where
  "base64 [] = []"
| "base64 [a] =
     [b64 (unat a div 4), b64 ((unat a mod 4) * 16), CHR ''='', CHR ''='']"
| "base64 [a, b] =
     [b64 (unat a div 4), b64 ((unat a mod 4) * 16 + unat b div 16),
      b64 ((unat b mod 16) * 4), CHR ''='']"
| "base64 (a # b # c # bs) =
     [b64 (unat a div 4), b64 ((unat a mod 4) * 16 + unat b div 16),
      b64 ((unat b mod 16) * 4 + unat c div 64), b64 (unat c mod 64)] @ base64 bs"

text \<open>
  \<^verbatim>\<open>hashWithSalt(input, salt)\<close>. Both arguments are strings in the model, so the
  \<^verbatim>\<open>typeof\<close> guard never fires.
\<close>

definition hashWithSalt :: "Platform \<Rightarrow> string \<Rightarrow> string \<Rightarrow> string" where
  "hashWithSalt p input salt = base64 (sha256 p (input @ salt))"

definition createHmac :: "Platform \<Rightarrow> string \<Rightarrow> string \<Rightarrow> string" where
  "createHmac p data secret = base64 (hmac_sha256 p secret data)"

text \<open>
  \<^verbatim>\<open>charCodeAt(i)\<close>; out of range it is \<^verbatim>\<open>NaN\<close>, which the bitwise operators
  read as 0.
\<close>

definition charCodeAt :: "string \<Rightarrow> nat \<Rightarrow> nat" where
  "charCodeAt s i = (if i < length s then of_char (s ! i) else 0)"

text \<open>
  The loop of \<^verbatim>\<open>constantTimeCompare\<close>:
  \<^verbatim>\<open>for (let i = 0; i < a.length; i++) result |= a.charCodeAt(i) ^ b.charCodeAt(i)\<close>.
  It returns the accumulator together with the final value of \<open>i\<close>, the number of
  positions it has visited.
\<close>

function ctc_loop :: "string \<Rightarrow> string \<Rightarrow> nat \<Rightarrow> nat \<Rightarrow> nat \<times> nat" where
  "ctc_loop a b i result =
     (if i < length a
      then ctc_loop a b (i + 1) (result OR (charCodeAt a i XOR charCodeAt b i))
      else (result, i))"
  by pat_completeness auto
termination
  by (relation "measure (\<lambda>(a, b, i, result). length a - i)") auto

declare ctc_loop.simps [simp del]

definition constantTimeCompare :: "string \<Rightarrow> string \<Rightarrow> bool" where
  "constantTimeCompare a b =
     (if length a \<noteq> length b then False else fst (ctc_loop a b 0 0) = 0)"

text \<open>The number of loop iterations one call of \<^verbatim>\<open>constantTimeCompare\<close> runs.\<close>

definition constantTimeCompare_scanned :: "string \<Rightarrow> string \<Rightarrow> nat" where
  "constantTimeCompare_scanned a b =
     (if length a \<noteq> length b then 0 else snd (ctc_loop a b 0 0))"

definition verifyHmac :: "Platform \<Rightarrow> string \<Rightarrow> string \<Rightarrow> string \<Rightarrow> bool" where
  "verifyHmac p data signature secret =
     (let expectedSignature = createHmac p data secret
      in constantTimeCompare signature expectedSignature)"

text \<open>A character range \<^verbatim>\<open>lo-hi\<close> of a class, by code unit.\<close>

definition inRange :: "char \<Rightarrow> char \<Rightarrow> char \<Rightarrow> bool" where
  "inRange lo hi c = ((of_char lo :: nat) \<le> of_char c \<and> (of_char c :: nat) \<le> of_char hi)"

text \<open>The character class \<^verbatim>\<open>[a-zA-Z0-9]\<close>.\<close>

definition isAlnum :: "char \<Rightarrow> bool" where
  "isAlnum c =
     (inRange CHR ''a'' CHR ''z'' c \<or> inRange CHR ''A'' CHR ''Z'' c
      \<or> inRange CHR ''0'' CHR ''9'' c)"

text \<open>
  \<^verbatim>\<open>generateProxyToken(originalToken, salt, prefix = 'anon_')\<close>:
  \<^verbatim>\<open>hash.substring(0, 16).replace(/[^a-zA-Z0-9]/g, '')\<close> after the prefix.
\<close>

definition generateProxyToken :: "Platform \<Rightarrow> string \<Rightarrow> string \<Rightarrow> string \<Rightarrow> string" where
  "generateProxyToken p originalToken salt prefix' =
     (let hash = hashWithSalt p originalToken salt;
          shortHash = filter isAlnum (take 16 hash)
      in prefix' @ shortHash)"

text \<open>The textual format \<^verbatim>\<open>^anon_[A-Za-z0-9]+$\<close>.\<close>

definition matches_anon_format :: "string \<Rightarrow> bool" where
  "matches_anon_format s =
     (take 5 s = ''anon_'' \<and> drop 5 s \<noteq> [] \<and> list_all isAlnum (drop 5 s))"

text \<open>
  \<^verbatim>\<open>isValidProxyToken(token, prefix)\<close>: \<^verbatim>\<open>startsWith(prefix)\<close>, longer than the prefix,
  and \<^verbatim>\<open>/^[a-zA-Z0-9_]+$/\<close>.
\<close>

definition isValidProxyToken :: "string \<Rightarrow> string \<Rightarrow> bool" where
  "isValidProxyToken token prefix' =
     (take (length prefix') token = prefix' \<and> length token > length prefix'
      \<and> token \<noteq> [] \<and> list_all (\<lambda>c. isAlnum c \<or> c = CHR ''_'') token)"

subsection \<open>Data model (core/types.ts)\<close>

datatype AnonymizationStrategy = HASH_SALT | EMBEDDINGS

datatype StorageBackend = MEMORY | VAULT

text \<open>
  A JavaScript \<^verbatim>\<open>Map\<close> keeps its entries in insertion order: it is an association
  list with distinct keys. \<^verbatim>\<open>set\<close> on a key already present replaces the value in
  place, on a new key it appends; \<^verbatim>\<open>delete\<close> removes the entry.
\<close>

type_synonym ('k, 'v) jsmap = "('k \<times> 'v) list"

definition jsmap_keys :: "('k, 'v) jsmap \<Rightarrow> 'k list" where
  "jsmap_keys m = map fst m"

definition jsmap_has :: "('k, 'v) jsmap \<Rightarrow> 'k \<Rightarrow> bool" where
  "jsmap_has m k = (map_of m k \<noteq> None)"

definition jsmap_get :: "('k, 'v) jsmap \<Rightarrow> 'k \<Rightarrow> 'v option" where
  "jsmap_get m k = map_of m k"

fun jsmap_set :: "('k, 'v) jsmap \<Rightarrow> 'k \<Rightarrow> 'v \<Rightarrow> ('k, 'v) jsmap" where
  "jsmap_set [] k v = [(k, v)]"
| "jsmap_set ((k', v') # m) k v =
     (if k' = k then (k, v) # m else (k', v') # jsmap_set m k v)"

definition jsmap_delete :: "('k, 'v) jsmap \<Rightarrow> 'k \<Rightarrow> ('k, 'v) jsmap" where
  "jsmap_delete m k = filter (\<lambda>e. fst e \<noteq> k) m"

text \<open>\<^verbatim>\<open>MappingData\<close>; \<open>md_createdAt\<close> is the \<^verbatim>\<open>Date\<close> in milliseconds.\<close>

record MappingData =
  md_id :: string
  md_mappings :: "(string, string) jsmap"
  md_createdAt :: int
  md_signature :: "string option"
  md_strategy :: AnonymizationStrategy

subsection \<open>In-memory storage (storage/memoryStorage.ts)\<close>

text \<open>
  The fields of \<^verbatim>\<open>MemoryStorage\<close>. The cleanup timer only deletes expired entries
  between calls and is not part of the state.
\<close>

record MemoryStorage =
  ms_mappings :: "(string, MappingData) jsmap"
  maxSize :: int
  ttlMs :: int

definition new_MemoryStorage :: "int \<Rightarrow> int \<Rightarrow> MemoryStorage" where
  "new_MemoryStorage maxSize' ttlMs' =
     \<lparr>ms_mappings = [], maxSize = maxSize', ttlMs = ttlMs'\<rparr>"

text \<open>
  \<^verbatim>\<open>store(mapId, mappingData)\<close> at time \<open>now\<close>. At capacity, and only for an id that is
  not in the table, the first key of the table is deleted
  (\<^verbatim>\<open>this.mappings.keys().next().value\<close>, skipped when that is falsy). The entry is
  stored with \<^verbatim>\<open>createdAt: new Date()\<close>.
\<close>

definition store :: "MemoryStorage \<Rightarrow> int \<Rightarrow> string \<Rightarrow> MappingData \<Rightarrow> error + MemoryStorage" where
  "store st now mapId mappingData =
     (if mapId = [] then Inl (StorageError ''Map ID must be a non-empty string'')
      else
        let m = ms_mappings st;
            m1 = (if int (length m) \<ge> maxSize st \<and> \<not> jsmap_has m mapId
                  then (case m of
                          [] \<Rightarrow> m
                        | (oldestKey, _) # _ \<Rightarrow>
                            if oldestKey \<noteq> [] then jsmap_delete m oldestKey else m)
                  else m);
            dataToStore = mappingData\<lparr>md_createdAt := now\<rparr>
        in Inr (st\<lparr>ms_mappings := jsmap_set m1 mapId dataToStore\<rparr>))"

text \<open>
  \<^verbatim>\<open>retrieve(mapId)\<close> at time \<open>now\<close>: the entry, or \<open>None\<close> for \<^verbatim>\<open>null\<close>; an expired
  entry is deleted on the way.
\<close>

definition retrieve ::
  "MemoryStorage \<Rightarrow> int \<Rightarrow> string \<Rightarrow> error + (MappingData option \<times> MemoryStorage)" where
  "retrieve st now mapId =
     (if mapId = [] then Inl (StorageError ''Map ID must be a non-empty string'')
      else
        case jsmap_get (ms_mappings st) mapId of
          None \<Rightarrow> Inr (None, st)
        | Some mappingData \<Rightarrow>
            if ttlMs st > 0 \<and> now - md_createdAt mappingData > ttlMs st
            then Inr (None, st\<lparr>ms_mappings := jsmap_delete (ms_mappings st) mapId\<rparr>)
            else Inr (Some mappingData, st))"

definition delete :: "MemoryStorage \<Rightarrow> string \<Rightarrow> error + MemoryStorage" where
  "delete st mapId =
     (if mapId = [] then Inl (StorageError ''Failed to delete mapping: Map ID must be a non-empty string'')
      else Inr (st\<lparr>ms_mappings := jsmap_delete (ms_mappings st) mapId\<rparr>))"

text \<open>
  The table of a storage built by the constructor and changed by its methods only has
  distinct, non-empty keys.
\<close>

definition table_ok :: "MemoryStorage \<Rightarrow> bool" where
  "table_ok st = (distinct (jsmap_keys (ms_mappings st)) \<and> [] \<notin> set (jsmap_keys (ms_mappings st)))"


subsection \<open>Regular expressions\<close>

text \<open>
  The fragment of JavaScript regular expressions that the pattern catalogue uses:
  character classes (possibly negated), concatenation, alternation, greedy
  quantifiers \<^verbatim>\<open>{min,max}\<close>, capturing groups, \<^verbatim>\<open>\b\<close> and negative lookahead. A
  class is a list of ranges of code units.
\<close>

datatype regex =
    Cls bool "(nat \<times> nat) list"
  | Eps
  | Cat regex regex
  | Alt regex regex
  | Rep nat "nat option" regex
  | Grp nat regex
  | WordB
  | NLook regex

record RegExp =
  re_source :: regex
  re_global :: bool
  re_ignoreCase :: bool

definition rng :: "char \<Rightarrow> char \<Rightarrow> nat \<times> nat" where
  "rng lo hi = (of_char lo, of_char hi)"

definition ch :: "char \<Rightarrow> nat \<times> nat" where
  "ch c = (of_char c, of_char c)"

definition lit :: "string \<Rightarrow> regex" where
  "lit s = foldr (\<lambda>c r. Cat (Cls False [ch c]) r) s Eps"

definition seq :: "regex list \<Rightarrow> regex" where
  "seq rs = foldr Cat rs Eps"

definition opt :: "regex \<Rightarrow> regex" where
  "opt r = Rep 0 (Some 1) r"

definition star :: "regex \<Rightarrow> regex" where
  "star r = Rep 0 None r"

definition plus :: "regex \<Rightarrow> regex" where
  "plus r = Rep 1 None r"

text \<open>
  Matching follows the continuation semantics of the language standard. A state is
  (is the previous code unit a word character, position, remaining code units,
  captures); a capture is (group, start, end). Under the \<^verbatim>\<open>i\<close> flag a code unit
  matches a class when the class holds a code unit with the same upper-case form
  (ASCII and Latin-1 letters).
\<close>

definition canonicalize :: "nat \<Rightarrow> nat" where
  "canonicalize n =
     (if (97 \<le> n \<and> n \<le> 122) \<or> (224 \<le> n \<and> n \<le> 254 \<and> n \<noteq> 247) then n - 32 else n)"

definition lowerOf :: "nat \<Rightarrow> nat" where
  "lowerOf n =
     (if (65 \<le> n \<and> n \<le> 90) \<or> (192 \<le> n \<and> n \<le> 222 \<and> n \<noteq> 215) then n + 32 else n)"

definition in_class :: "(nat \<times> nat) list \<Rightarrow> nat \<Rightarrow> bool" where
  "in_class rs n = list_ex (\<lambda>(lo, hi). lo \<le> n \<and> n \<le> hi) rs"

definition class_matches :: "bool \<Rightarrow> bool \<Rightarrow> (nat \<times> nat) list \<Rightarrow> nat \<Rightarrow> bool" where
  "class_matches ic neg rs c =
     ((if ic then in_class rs (canonicalize c) \<or> in_class rs (lowerOf (canonicalize c))
       else in_class rs c) \<noteq> neg)"

definition isWordChar :: "nat \<Rightarrow> bool" where
  "isWordChar n = in_class [(97, 122), (65, 90), (48, 57), (95, 95)] n"

type_synonym mstate = "bool \<times> nat \<times> nat list \<times> (nat \<times> nat \<times> nat) list"

type_synonym cont = "mstate \<Rightarrow> mstate option"

definition dec :: "nat option \<Rightarrow> nat option" where
  "dec mx = (case mx of None \<Rightarrow> None | Some n \<Rightarrow> Some (n - 1))"

text \<open>
  The greedy quantifier: at most \<open>mx\<close> further iterations of the body \<open>mb\<close>, at
  least \<open>mn\<close>; an optional iteration that consumes nothing is rejected. The first
  argument bounds the number of iterations; \<open>mn\<close> plus the number of remaining code
  units is always enough.
\<close>

primrec rep ::
  "nat \<Rightarrow> (cont \<Rightarrow> mstate \<Rightarrow> mstate option) \<Rightarrow> nat \<Rightarrow> nat option \<Rightarrow> cont \<Rightarrow> mstate
     \<Rightarrow> mstate option" where
  "rep 0 mb mn mx k s = (if mn = 0 then k s else None)"
| "rep (Suc f) mb mn mx k s =
     (if mx = Some 0 then k s
      else case mb (\<lambda>s'. if mn = 0 \<and> fst (snd s') = fst (snd s) then None
                          else rep f mb (mn - 1) (dec mx) k s') s of
             Some r \<Rightarrow> Some r
           | None \<Rightarrow> if mn = 0 then k s else None)"

primrec matcher :: "bool \<Rightarrow> regex \<Rightarrow> cont \<Rightarrow> mstate \<Rightarrow> mstate option" where
  "matcher ic (Cls neg rs) k s =
     (case s of (pw, i, rest, caps) \<Rightarrow>
        (case rest of
           [] \<Rightarrow> None
         | c # cs \<Rightarrow>
             if class_matches ic neg rs c then k (isWordChar c, Suc i, cs, caps) else None))"
| "matcher ic Eps k s = k s"
| "matcher ic (Cat r1 r2) k s = matcher ic r1 (matcher ic r2 k) s"
| "matcher ic (Alt r1 r2) k s = (case matcher ic r1 k s of Some x \<Rightarrow> Some x | None \<Rightarrow> matcher ic r2 k s)"
| "matcher ic (Rep mn mx r) k s = rep (mn + length (fst (snd (snd s)))) (matcher ic r) mn mx k s"
| "matcher ic (Grp n r) k s =
     (case s of (pw, i, rest, caps) \<Rightarrow>
        matcher ic r (\<lambda>s'. case s' of (pw', j, rest', caps') \<Rightarrow> k (pw', j, rest', (n, i, j) # caps')) s)"
| "matcher ic WordB k s =
     (case s of (pw, i, rest, caps) \<Rightarrow>
        if pw \<noteq> (case rest of [] \<Rightarrow> False | c # cs \<Rightarrow> isWordChar c) then k s else None)"
| "matcher ic (NLook r) k s = (case matcher ic r Some s of Some x \<Rightarrow> None | None \<Rightarrow> k s)"

text \<open>The result of \<^verbatim>\<open>exec\<close>: \<^verbatim>\<open>match.index\<close>, the end of the match, the captures.\<close>

record RegExpMatch =
  m_index :: nat
  m_end :: nat
  m_caps :: "(nat \<times> nat \<times> nat) list"

text \<open>The leftmost position, from \<open>i\<close> on, at which the expression matches.\<close>

fun search :: "bool \<Rightarrow> regex \<Rightarrow> bool \<Rightarrow> nat \<Rightarrow> nat list \<Rightarrow> RegExpMatch option" where
  "search ic r pw i [] =
     (case matcher ic r Some (pw, i, [], []) of
        Some (pw', j, rest', caps) \<Rightarrow> Some \<lparr>m_index = i, m_end = j, m_caps = caps\<rparr>
      | None \<Rightarrow> None)"
| "search ic r pw i (c # cs) =
     (case matcher ic r Some (pw, i, c # cs, []) of
        Some (pw', j, rest', caps) \<Rightarrow> Some \<lparr>m_index = i, m_end = j, m_caps = caps\<rparr>
      | None \<Rightarrow> search ic r (isWordChar c) (Suc i) cs)"

text \<open>
  \<^verbatim>\<open>pattern.exec(str)\<close> with \<^verbatim>\<open>pattern.lastIndex = lastIndex\<close>. A regular expression
  without the \<^verbatim>\<open>g\<close> flag always starts at 0.
\<close>

definition exec :: "RegExp \<Rightarrow> string \<Rightarrow> nat \<Rightarrow> RegExpMatch option" where
  "exec re str lastIndex =
     (let start = (if re_global re then lastIndex else 0)
      in if start > length str then None
         else search (re_ignoreCase re) (re_source re)
                (start > 0 \<and> isWordChar (of_char (str ! (start - 1)))) start
                (drop start (map of_char str)))"

text \<open>
  The loop \<^verbatim>\<open>while ((match = pattern.exec(text)) !== null)\<close>, started with
  \<^verbatim>\<open>lastIndex\<close>: the matches in order. With the \<^verbatim>\<open>g\<close> flag each match moves
  \<^verbatim>\<open>lastIndex\<close> to its end. A match that leaves \<^verbatim>\<open>lastIndex\<close> where it was (an
  empty match at \<^verbatim>\<open>lastIndex\<close>, or any match without the \<^verbatim>\<open>g\<close> flag) is found
  again by the next call, and the loop never ends: the result is \<open>None\<close>.
\<close>

function execAll :: "RegExp \<Rightarrow> string \<Rightarrow> nat \<Rightarrow> RegExpMatch list option" where
  "execAll re str lastIndex =
     (case exec re str lastIndex of
        None \<Rightarrow> Some []
      | Some mt \<Rightarrow>
          if re_global re \<and> lastIndex < m_end mt
          then map_option ((#) mt) (execAll re str (m_end mt))
          else None)"
  by pat_completeness auto
termination
proof (relation "measure (\<lambda>(re, str, lastIndex). length str + 1 - lastIndex)")
  show "wf (measure (\<lambda>(re, str, lastIndex). length str + 1 - lastIndex))"
    by simp
next
  fix re :: RegExp and str :: string and lastIndex :: nat and mt :: RegExpMatch
  assume e: "exec re str lastIndex = Some mt"
    and g: "re_global re \<and> lastIndex < m_end mt"
  have "lastIndex \<le> length str"
    using e g by (auto simp: exec_def Let_def split: if_splits)
  then show "((re, str, m_end mt), (re, str, lastIndex))
      \<in> measure (\<lambda>(re, str, lastIndex). length str + 1 - lastIndex)"
    using g by (simp add: diff_less_mono2 less_Suc_eq_le)
qed

declare execAll.simps [simp del]

text \<open>\<^verbatim>\<open>str.substring(a, b)\<close>.\<close>

definition substring :: "string \<Rightarrow> nat \<Rightarrow> nat \<Rightarrow> string" where
  "substring s a b = take (max a b - min a b) (drop (min a b) s)"

text \<open>\<^verbatim>\<open>match[0]\<close> and \<^verbatim>\<open>match[n]\<close> (\<open>None\<close> for \<^verbatim>\<open>undefined\<close>).\<close>

definition match_text :: "string \<Rightarrow> RegExpMatch \<Rightarrow> string" where
  "match_text str mt = substring str (m_index mt) (m_end mt)"

definition match_group :: "string \<Rightarrow> RegExpMatch \<Rightarrow> nat \<Rightarrow> string option" where
  "match_group str mt n =
     (case map_of (m_caps mt) n of
        None \<Rightarrow> None
      | Some (a, b) \<Rightarrow> Some (substring str a b))"

text \<open>\<^verbatim>\<open>toLowerCase\<close> on code units below 256.\<close>

definition toLowerCase_char :: "char \<Rightarrow> char" where
  "toLowerCase_char c =
     (let n = (of_char c :: nat)
      in if (65 \<le> n \<and> n \<le> 90) \<or> (192 \<le> n \<and> n \<le> 222 \<and> n \<noteq> 215)
         then char_of (n + 32) else c)"

definition toLowerCase :: "string \<Rightarrow> string" where
  "toLowerCase s = map toLowerCase_char s"

subsection \<open>The pattern catalogue (utils/tokenDetector.ts)\<close>

text \<open>\<^verbatim>\<open>\s\<close> on code units below 256, and the classes the catalogue shares.\<close>

definition ws_class :: "(nat \<times> nat) list" where
  "ws_class = [(9, 13), (32, 32), (160, 160)]"

definition alnum_class :: "(nat \<times> nat) list" where
  "alnum_class = [rng CHR ''a'' CHR ''z'', rng CHR ''A'' CHR ''Z'', rng CHR ''0'' CHR ''9'']"

text \<open>\<^verbatim>\<open>[a-zA-Z0-9_\-\.]\<close>\<close>

definition key_class :: "(nat \<times> nat) list" where
  "key_class = alnum_class @ [ch CHR ''_'', ch CHR ''-'', ch CHR ''.'']"

text \<open>\<^verbatim>\<open>[^\s"']\<close>, as the class that is negated.\<close>

definition space_quote_class :: "(nat \<times> nat) list" where
  "space_quote_class = ws_class @ [ch CHR 0x22, ch CHR 0x27]"

definition digit :: regex where
  "digit = Cls False [rng CHR ''0'' CHR ''9'']"

text \<open>\<^verbatim>\<open>[_-]?\<close> and \<^verbatim>\<open>[-.\s]?\<close>\<close>

definition opt_joiner :: regex where
  "opt_joiner = opt (Cls False [ch CHR ''_'', ch CHR ''-''])"

definition opt_sep :: regex where
  "opt_sep = opt (Cls False ([ch CHR ''-'', ch CHR ''.''] @ ws_class))"

text \<open>\<^verbatim>\<open>label["\s]*[:=]["\s]*(body)\<close>\<close>

definition labelled :: "regex \<Rightarrow> regex \<Rightarrow> regex" where
  "labelled label body =
     seq [label, star (Cls False (ch CHR 0x22 # ws_class)),
          Cls False [ch CHR '':'', ch CHR ''=''],
          star (Cls False (ch CHR 0x22 # ws_class)), Grp 1 body]"

text \<open>\<^verbatim>\<open>/(?:api[_-]?key|apikey|key)["\s]*[:=]["\s]*([a-zA-Z0-9_\-\.]{16,})/gi\<close>\<close>

definition API_KEY :: regex where
  "API_KEY =
     labelled (Alt (seq [lit ''api'', opt_joiner, lit ''key'']) (Alt (lit ''apikey'') (lit ''key'')))
       (Rep 16 None (Cls False key_class))"

text \<open>\<^verbatim>\<open>/(?:access[_-]?token|accesstoken|token)["\s]*[:=]["\s]*([a-zA-Z0-9_\-\.]{16,})/gi\<close>\<close>

definition ACCESS_TOKEN :: regex where
  "ACCESS_TOKEN =
     labelled (Alt (seq [lit ''access'', opt_joiner, lit ''token''])
                (Alt (lit ''accesstoken'') (lit ''token'')))
       (Rep 16 None (Cls False key_class))"

text \<open>\<^verbatim>\<open>/(?:secret[_-]?key|secretkey|secret)["\s]*[:=]["\s]*([a-zA-Z0-9_\-\.]{16,})/gi\<close>\<close>

definition SECRET_KEY :: regex where
  "SECRET_KEY =
     labelled (Alt (seq [lit ''secret'', opt_joiner, lit ''key''])
                (Alt (lit ''secretkey'') (lit ''secret'')))
       (Rep 16 None (Cls False key_class))"

text \<open>\<^verbatim>\<open>/Bearer\s+([a-zA-Z0-9_\-\.]{16,})/gi\<close>\<close>

definition BEARER_TOKEN :: regex where
  "BEARER_TOKEN =
     seq [lit ''Bearer'', plus (Cls False ws_class), Grp 1 (Rep 16 None (Cls False key_class))]"

text \<open>\<^verbatim>\<open>/eyJ[a-zA-Z0-9_\-]+\.eyJ[a-zA-Z0-9_\-]+\.[a-zA-Z0-9_\-]+/gi\<close>\<close>

definition jwt_part :: regex where
  "jwt_part = plus (Cls False (alnum_class @ [ch CHR ''_'', ch CHR ''-'']))"

definition JWT_TOKEN :: regex where
  "JWT_TOKEN = seq [lit ''eyJ'', jwt_part, lit ''.'', lit ''eyJ'', jwt_part, lit ''.'', jwt_part]"

text \<open>\<^verbatim>\<open>/(?:password|passwd|pwd)["\s]*[:=]["\s]*([^\s"']{8,})/gi\<close>\<close>

definition PASSWORD :: regex where
  "PASSWORD =
     labelled (Alt (lit ''password'') (Alt (lit ''passwd'') (lit ''pwd'')))
       (Rep 8 None (Cls True space_quote_class))"

text \<open>\<^verbatim>\<open>/(?:database[_-]?url|db[_-]?url)["\s]*[:=]["\s]*([^\s"']{10,})/gi\<close>\<close>

definition DATABASE_URL :: regex where
  "DATABASE_URL =
     labelled (Alt (seq [lit ''database'', opt_joiner, lit ''url''])
                (seq [lit ''db'', opt_joiner, lit ''url'']))
       (Rep 10 None (Cls True space_quote_class))"

text \<open>\<^verbatim>\<open>/AKIA[0-9A-Z]{16}/gi\<close>\<close>

definition AWS_ACCESS_KEY :: regex where
  "AWS_ACCESS_KEY =
     seq [lit ''AKIA'', Rep 16 (Some 16) (Cls False [rng CHR ''0'' CHR ''9'', rng CHR ''A'' CHR ''Z''])]"

text \<open>\<^verbatim>\<open>/[a-zA-Z0-9\/+=]{40}/gi\<close>\<close>

definition AWS_SECRET_KEY :: regex where
  "AWS_SECRET_KEY =
     Rep 40 (Some 40) (Cls False (alnum_class @ [ch CHR ''/'', ch CHR ''+'', ch CHR ''='']))"

text \<open>\<^verbatim>\<open>/[a-zA-Z0-9~\-._]{34,}/gi\<close>\<close>

definition AZURE_CLIENT_SECRET :: regex where
  "AZURE_CLIENT_SECRET =
     Rep 34 None (Cls False (alnum_class @ [ch CHR ''~'', ch CHR ''-'', ch CHR ''.'', ch CHR ''_'']))"

text \<open>\<^verbatim>\<open>/\b[A-Za-z0-9._%+-]+@[A-Za-z0-9.-]+\.[A-Z|a-z]{2,}\b/gi\<close>\<close>

definition EMAIL :: regex where
  "EMAIL =
     seq [WordB,
          plus (Cls False [rng CHR ''A'' CHR ''Z'', rng CHR ''a'' CHR ''z'', rng CHR ''0'' CHR ''9'',
                  ch CHR ''.'', ch CHR ''_'', ch CHR ''%'', ch CHR ''+'', ch CHR ''-'']),
          lit ''@'',
          plus (Cls False [rng CHR ''A'' CHR ''Z'', rng CHR ''a'' CHR ''z'', rng CHR ''0'' CHR ''9'',
                  ch CHR ''.'', ch CHR ''-'']),
          lit ''.'',
          Rep 2 None (Cls False [rng CHR ''A'' CHR ''Z'', ch CHR ''|'', rng CHR ''a'' CHR ''z'']),
          WordB]"

text \<open>\<^verbatim>\<open>/(?:\+?1[-.\s]?)?\(?[0-9]{3}\)?[-.\s]?[0-9]{3}[-.\s]?[0-9]{4}/gi\<close>\<close>

definition PHONE :: regex where
  "PHONE =
     seq [opt (seq [opt (lit ''+''), lit ''1'', opt_sep]),
          opt (lit ''(''), Rep 3 (Some 3) digit, opt (lit '')''), opt_sep,
          Rep 3 (Some 3) digit, opt_sep, Rep 4 (Some 4) digit]"

text \<open>\<^verbatim>\<open>/(?!000|666)[0-8][0-9]{2}-(?!00)[0-9]{2}-(?!0000)[0-9]{4}/gi\<close>\<close>

definition SSN :: regex where
  "SSN =
     seq [NLook (Alt (lit ''000'') (lit ''666'')), Cls False [rng CHR ''0'' CHR ''8''],
          Rep 2 (Some 2) digit, lit ''-'', NLook (lit ''00''), Rep 2 (Some 2) digit, lit ''-'',
          NLook (lit ''0000''), Rep 4 (Some 4) digit]"

text \<open>
  \<^verbatim>\<open>/(?:4[0-9]{12}(?:[0-9]{3})?|5[1-5][0-9]{14}|3[47][0-9]{13}|3[0-9]{13}|6(?:011|5[0-9]{2})[0-9]{12})/gi\<close>
\<close>

definition CREDIT_CARD :: regex where
  "CREDIT_CARD =
     Alt (seq [lit ''4'', Rep 12 (Some 12) digit, opt (Rep 3 (Some 3) digit)])
    (Alt (seq [lit ''5'', Cls False [rng CHR ''1'' CHR ''5''], Rep 14 (Some 14) digit])
    (Alt (seq [lit ''3'', Cls False [ch CHR ''4'', ch CHR ''7''], Rep 13 (Some 13) digit])
    (Alt (seq [lit ''3'', Rep 13 (Some 13) digit])
         (seq [lit ''6'', Alt (lit ''011'') (seq [lit ''5'', Rep 2 (Some 2) digit]),
               Rep 12 (Some 12) digit]))))"

text \<open>\<^verbatim>\<open>(?:25[0-5]|2[0-4][0-9]|[01]?[0-9][0-9]?)\<close>\<close>

definition octet :: regex where
  "octet =
     Alt (seq [lit ''25'', Cls False [rng CHR ''0'' CHR ''5'']])
    (Alt (seq [lit ''2'', Cls False [rng CHR ''0'' CHR ''4''], digit])
         (seq [opt (Cls False [ch CHR ''0'', ch CHR ''1'']), digit, opt digit]))"

text \<open>
  \<^verbatim>\<open>/(?:10\.O\.O\.O|172\.(?:1[6-9]|2[0-9]|3[0-1])\.O\.O|192\.168\.O\.O)/gi\<close>, with \<^verbatim>\<open>O\<close>
  for the octet above.
\<close>

definition PRIVATE_IP :: regex where
  "PRIVATE_IP =
     Alt (seq [lit ''10.'', octet, lit ''.'', octet, lit ''.'', octet])
    (Alt (seq [lit ''172.'',
               Alt (seq [lit ''1'', Cls False [rng CHR ''6'' CHR ''9'']])
              (Alt (seq [lit ''2'', digit])
                   (seq [lit ''3'', Cls False [rng CHR ''0'' CHR ''1'']])),
               lit ''.'', octet, lit ''.'', octet])
         (seq [lit ''192.168.'', octet, lit ''.'', octet]))"

text \<open>\<^verbatim>\<open>/[0-9a-f]{8}-[0-9a-f]{4}-[0-9a-f]{4}-[0-9a-f]{4}-[0-9a-f]{12}/gi\<close>\<close>

definition hex_digit :: regex where
  "hex_digit = Cls False [rng CHR ''0'' CHR ''9'', rng CHR ''a'' CHR ''f'']"

definition UUID :: regex where
  "UUID =
     seq [Rep 8 (Some 8) hex_digit, lit ''-'', Rep 4 (Some 4) hex_digit, lit ''-'',
          Rep 4 (Some 4) hex_digit, lit ''-'', Rep 4 (Some 4) hex_digit, lit ''-'',
          Rep 12 (Some 12) hex_digit]"

text \<open>\<^verbatim>\<open>/[a-fA-F0-9]{32,}/gi\<close>\<close>

definition HEX_TOKEN :: regex where
  "HEX_TOKEN =
     Rep 32 None (Cls False [rng CHR ''a'' CHR ''f'', rng CHR ''A'' CHR ''F'', rng CHR ''0'' CHR ''9''])"

text \<open>\<^verbatim>\<open>/[A-Za-z0-9+/]{20,}={0,2}/gi\<close>\<close>

definition BASE64_TOKEN :: regex where
  "BASE64_TOKEN =
     seq [Rep 20 None (Cls False [rng CHR ''A'' CHR ''Z'', rng CHR ''a'' CHR ''z'',
                                  rng CHR ''0'' CHR ''9'', ch CHR ''+'', ch CHR ''/'']),
          Rep 0 (Some 2) (lit ''='')]"

text \<open>Every pattern of the catalogue carries the flags \<^verbatim>\<open>gi\<close>.\<close>

definition gi :: "regex \<Rightarrow> RegExp" where
  "gi r = \<lparr>re_source = r, re_global = True, re_ignoreCase = True\<rparr>"

definition TOKEN_PATTERNS :: "string \<Rightarrow> RegExp option" where
  "TOKEN_PATTERNS name =
     map_of
       [(''API_KEY'', gi API_KEY), (''ACCESS_TOKEN'', gi ACCESS_TOKEN),
        (''SECRET_KEY'', gi SECRET_KEY), (''BEARER_TOKEN'', gi BEARER_TOKEN),
        (''JWT_TOKEN'', gi JWT_TOKEN), (''PASSWORD'', gi PASSWORD),
        (''DATABASE_URL'', gi DATABASE_URL), (''AWS_ACCESS_KEY'', gi AWS_ACCESS_KEY),
        (''AWS_SECRET_KEY'', gi AWS_SECRET_KEY),
        (''AZURE_CLIENT_SECRET'', gi AZURE_CLIENT_SECRET), (''EMAIL'', gi EMAIL),
        (''PHONE'', gi PHONE), (''SSN'', gi SSN), (''CREDIT_CARD'', gi CREDIT_CARD),
        (''PRIVATE_IP'', gi PRIVATE_IP), (''UUID'', gi UUID), (''HEX_TOKEN'', gi HEX_TOKEN),
        (''BASE64_TOKEN'', gi BASE64_TOKEN)]
       name"

subsection \<open>The token detector (utils/tokenDetector.ts)\<close>

record TokenDetectionConfig =
  patterns :: "string list"
  minLength :: int
  customPatterns :: "RegExp list"
  exclusions :: "string list"
  caseSensitive :: bool

definition DEFAULT_DETECTION_CONFIG :: TokenDetectionConfig where
  "DEFAULT_DETECTION_CONFIG =
     \<lparr>patterns = [''API_KEY'', ''ACCESS_TOKEN'', ''SECRET_KEY'', ''BEARER_TOKEN'', ''JWT_TOKEN'',
                  ''PASSWORD'', ''EMAIL'', ''PHONE'', ''PRIVATE_IP'', ''UUID''],
      minLength = 8,
      customPatterns = [],
      exclusions = [''localhost'', ''127.0.0.1'', ''example.com'', ''test@example.com''],
      caseSensitive = False\<rparr>"

text \<open>
  \<^verbatim>\<open>DetectedToken\<close>. The confidence is the real number the JavaScript double stands
  for.
\<close>

record DetectedToken =
  tok_value :: string
  tok_type :: string
  startIndex :: nat
  endIndex :: nat
  confidence :: real

text \<open>
  The body of the loop over the matches of one catalogue pattern. \<open>conf\<close> is
  \<^verbatim>\<open>calculateConfidence\<close>, a floating-point score that the embedding takes as a
  parameter. The span starts at \<^verbatim>\<open>match.index\<close> and has the length of \<open>value\<close>.
\<close>

definition pattern_token ::
  "(string \<Rightarrow> string \<Rightarrow> real) \<Rightarrow> TokenDetectionConfig \<Rightarrow> string \<Rightarrow> string \<Rightarrow> string
     \<Rightarrow> RegExpMatch \<Rightarrow> DetectedToken option" where
  "pattern_token conf cfg text processedText patternName mt =
     (let value = (case match_group processedText mt 1 of
                     Some g \<Rightarrow> if g \<noteq> [] then g else match_text processedText mt
                   | None \<Rightarrow> match_text processedText mt)
      in if int (length value) < minLength cfg \<or> toLowerCase value \<in> set (exclusions cfg)
         then None
         else Some
           \<lparr>tok_value = (if caseSensitive cfg then value
                         else substring text (m_index mt) (m_index mt + length value)),
            tok_type = patternName,
            startIndex = m_index mt,
            endIndex = m_index mt + length value,
            confidence = conf patternName value\<rparr>)"

text \<open>The body of the loop over the matches of one custom pattern.\<close>

definition custom_token ::
  "TokenDetectionConfig \<Rightarrow> string \<Rightarrow> string \<Rightarrow> RegExpMatch \<Rightarrow> DetectedToken option" where
  "custom_token cfg text processedText mt =
     (let value = match_text processedText mt
      in if int (length value) \<ge> minLength cfg
         then Some
           \<lparr>tok_value = (if caseSensitive cfg then value
                         else substring text (m_index mt) (m_index mt + length value)),
            tok_type = ''CUSTOM'',
            startIndex = m_index mt,
            endIndex = m_index mt + length value,
            confidence = 7 / 10\<rparr>
         else None)"

text \<open>
  \<open>TOKEN_PATTERNS\<close> holds the own properties of the catalogue object. The lookup
  \<^verbatim>\<open>TOKEN_PATTERNS[patternName]\<close> also finds what every object inherits from
  \<^verbatim>\<open>Object.prototype\<close>: for these names it gives a function or an object, which is
  truthy and has no \<^verbatim>\<open>exec\<close>, so the call of \<^verbatim>\<open>pattern.exec\<close> throws.
\<close>

definition inherited_names :: "string list" where
  "inherited_names =
     [''constructor'', ''__defineGetter__'', ''__defineSetter__'', ''hasOwnProperty'',
      ''__lookupGetter__'', ''__lookupSetter__'', ''isPrototypeOf'', ''propertyIsEnumerable'',
      ''toString'', ''valueOf'', ''__proto__'', ''toLocaleString'']"

text \<open>
  The two outer loops of \<^verbatim>\<open>detectTokens\<close>: the tokens pushed onto \<^verbatim>\<open>detected\<close>, in
  order. The result is \<open>None\<close> when the call returns no list: one of the match loops
  does not end, or a configured name is an inherited one and the call throws.
\<close>

fun detect_patterns ::
  "(string \<Rightarrow> string \<Rightarrow> real) \<Rightarrow> TokenDetectionConfig \<Rightarrow> string \<Rightarrow> string \<Rightarrow> string list
     \<Rightarrow> DetectedToken list option" where
  "detect_patterns conf cfg text processedText [] = Some []"
| "detect_patterns conf cfg text processedText (patternName # names) =
     (case TOKEN_PATTERNS patternName of
        None \<Rightarrow>
          if patternName \<in> set inherited_names then None
          else detect_patterns conf cfg text processedText names
      | Some pattern \<Rightarrow>
          (case execAll pattern processedText 0 of
             None \<Rightarrow> None
           | Some ms \<Rightarrow>
               map_option
                 ((@) (List.map_filter (pattern_token conf cfg text processedText patternName) ms))
                 (detect_patterns conf cfg text processedText names)))"

fun detect_custom ::
  "TokenDetectionConfig \<Rightarrow> string \<Rightarrow> string \<Rightarrow> RegExp list \<Rightarrow> DetectedToken list option" where
  "detect_custom cfg text processedText [] = Some []"
| "detect_custom cfg text processedText (pattern # ps) =
     (case execAll pattern processedText 0 of
        None \<Rightarrow> None
      | Some ms \<Rightarrow>
          map_option ((@) (List.map_filter (custom_token cfg text processedText) ms))
            (detect_custom cfg text processedText ps))"

definition detected ::
  "(string \<Rightarrow> string \<Rightarrow> real) \<Rightarrow> TokenDetectionConfig \<Rightarrow> string \<Rightarrow> DetectedToken list option" where
  "detected conf cfg text =
     (let processedText = (if caseSensitive cfg then text else toLowerCase text)
      in case detect_patterns conf cfg text processedText (patterns cfg) of
           None \<Rightarrow> None
         | Some d1 \<Rightarrow>
             (case detect_custom cfg text processedText (customPatterns cfg) of
                None \<Rightarrow> None
              | Some d2 \<Rightarrow> Some (d1 @ d2)))"

text \<open>The overlap test of \<^verbatim>\<open>deduplicateTokens\<close>, as written.\<close>

definition overlaps :: "DetectedToken \<Rightarrow> DetectedToken \<Rightarrow> bool" where
  "overlaps token existing =
     ((startIndex token \<ge> startIndex existing \<and> startIndex token < endIndex existing)
      \<or> (endIndex token > startIndex existing \<and> endIndex token \<le> endIndex existing)
      \<or> (startIndex token \<le> startIndex existing \<and> endIndex token \<ge> endIndex existing))"

text \<open>\<^verbatim>\<open>Array.prototype.findIndex\<close>; \<open>None\<close> for \<^verbatim>\<open>-1\<close>.\<close>

fun findIndex :: "('a \<Rightarrow> bool) \<Rightarrow> 'a list \<Rightarrow> nat option" where
  "findIndex P [] = None"
| "findIndex P (x # xs) = (if P x then Some 0 else map_option Suc (findIndex P xs))"

text \<open>One round of the loop of \<^verbatim>\<open>deduplicateTokens\<close>.\<close>

definition dedup_step :: "DetectedToken list \<Rightarrow> DetectedToken \<Rightarrow> DetectedToken list" where
  "dedup_step result token =
     (let hasOverlap = list_ex (overlaps token) result
      in if \<not> hasOverlap then result @ [token]
         else (case findIndex (overlaps token) result of
                 None \<Rightarrow> result
               | Some overlappingIndex \<Rightarrow>
                   if confidence token > confidence (result ! overlappingIndex)
                   then result[overlappingIndex := token]
                   else result))"

text \<open>
  \<^verbatim>\<open>deduplicateTokens\<close>: a stable sort by start index, then the loop from an empty
  result.
\<close>

definition deduplicateTokens :: "DetectedToken list \<Rightarrow> DetectedToken list" where
  "deduplicateTokens tokens = foldl dedup_step [] (sort_key startIndex tokens)"

definition detectTokens ::
  "(string \<Rightarrow> string \<Rightarrow> real) \<Rightarrow> TokenDetectionConfig \<Rightarrow> string \<Rightarrow> DetectedToken list option" where
  "detectTokens conf cfg text = map_option deduplicateTokens (detected conf cfg text)"

text \<open>Two spans \<open>[startIndex, endIndex)\<close> share a position.\<close>

definition spans_overlap :: "DetectedToken \<Rightarrow> DetectedToken \<Rightarrow> bool" where
  "spans_overlap a b = (startIndex a < endIndex b \<and> startIndex b < endIndex a)"

text \<open>A token whose span is not empty.\<close>

definition positive :: "DetectedToken \<Rightarrow> bool" where
  "positive t = (startIndex t < endIndex t)"

text \<open>Each span ends before the next one starts.\<close>

definition separated :: "DetectedToken list \<Rightarrow> bool" where
  "separated ts = sorted_wrt (\<lambda>a b. endIndex a \<le> startIndex b) ts"

text \<open>The invariant of the loop of \<^verbatim>\<open>deduplicateTokens\<close> on its \<^verbatim>\<open>result\<close> array.\<close>

definition dedup_inv :: "DetectedToken list \<Rightarrow> bool" where
  "dedup_inv res = (separated res \<and> (\<forall>e \<in> set res. positive e))"

text \<open>Position and remaining input of a matcher state, and how one state follows another.\<close>

definition mpos :: "mstate \<Rightarrow> nat" where
  "mpos s = fst (snd s)"

definition mrest :: "mstate \<Rightarrow> nat list" where
  "mrest s = fst (snd (snd s))"

definition advances :: "mstate \<Rightarrow> mstate \<Rightarrow> bool" where
  "advances s s' = (mpos s \<le> mpos s' \<and> mpos s' + length (mrest s') = mpos s + length (mrest s))"

definition reaches :: "cont \<Rightarrow> mstate \<Rightarrow> mstate \<Rightarrow> bool" where
  "reaches k s res = (\<exists>s'. k s' = Some res \<and> advances s s')"

text \<open>
  An expression that can match without consuming a code unit (an over-approximation),
  and the patterns on which the match loop of \<^verbatim>\<open>detectTokens\<close> is sure to end: those
  with the \<^verbatim>\<open>g\<close> flag that match no empty text.
\<close>

fun nullable :: "regex \<Rightarrow> bool" where
  "nullable (Cls neg rs) = False"
| "nullable Eps = True"
| "nullable (Cat r1 r2) = (nullable r1 \<and> nullable r2)"
| "nullable (Alt r1 r2) = (nullable r1 \<or> nullable r2)"
| "nullable (Rep mn mx r) = (mn = 0 \<or> mx = Some 0 \<or> nullable r)"
| "nullable (Grp n r) = nullable r"
| "nullable WordB = True"
| "nullable (NLook r) = True"

definition terminating :: "RegExp \<Rightarrow> bool" where
  "terminating re = (re_global re \<and> \<not> nullable (re_source re))"

text \<open>
  The continuation \<open>k\<close> succeeds with \<open>res\<close> from a state strictly after \<open>s\<close>.
\<close>

definition moves :: "cont \<Rightarrow> mstate \<Rightarrow> mstate \<Rightarrow> bool" where
  "moves k s res = (\<exists>s'. k s' = Some res \<and> mpos s < mpos s')"

text \<open>
  The \<^verbatim>\<open>result\<close> array of \<^verbatim>\<open>deduplicateTokens\<close> after the loop has processed the
  tokens \<open>pre\<close>.
\<close>

definition accepted_after :: "DetectedToken list \<Rightarrow> DetectedToken list" where
  "accepted_after pre = foldl dedup_step [] pre"

subsection \<open>Anonymization strategies\<close>

text \<open>
  The floating-point parts of the repository, parameters of the embedding:
  \<^verbatim>\<open>calculateConfidence(patternType, value)\<close> of the detector, and
  \<^verbatim>\<open>JSON.stringify(extractTokenFeatures(token))\<close> of the embeddings strategy (it holds a
  rounded entropy).
\<close>

record Scoring =
  calculateConfidence :: "string \<Rightarrow> string \<Rightarrow> real"
  tokenFeatures :: "string \<Rightarrow> string"

record AnonProxyConfig =
  strategy :: AnonymizationStrategy
  storage :: StorageBackend
  enableSignatures :: bool
  signatureSecret :: "string option"
  enableLogging :: bool
  customSalt :: "string option"

text \<open>
  Modelled from the spec: \<^verbatim>\<open>HashSaltStrategy\<close> (strategies/hashSaltStrategy.ts is not
  among the sources). The proxy is the prefix followed by the first 16 characters of the
  Base64 SHA-256 of token and salt, non-alphanumeric characters stripped, which is
  \<^verbatim>\<open>CryptoUtils.generateProxyToken\<close>; the salt is \<^verbatim>\<open>config.customSalt\<close> if set, else
  the salt generated for the strategy instance. The theorems about the engine hold for
  every hash strategy; this one serves as the instance of their examples.
\<close>

definition HashSaltStrategy ::
  "Platform \<Rightarrow> string \<Rightarrow> string option \<Rightarrow> string \<Rightarrow> AnonProxyConfig \<Rightarrow> string option" where
  "HashSaltStrategy p generatedSalt customSalt' token cfg =
     Some (generateProxyToken p token
             (case customSalt cfg of Some s \<Rightarrow> s | None \<Rightarrow> generatedSalt) ''anon_'')"

text \<open>
  \<^verbatim>\<open>EmbeddingsStrategy.anonymize\<close> with the default model name and dimensions; \<open>None\<close>
  when it throws (an empty token).
\<close>

definition EmbeddingsStrategy_anonymize :: "Platform \<Rightarrow> Scoring \<Rightarrow> string \<Rightarrow> string option" where
  "EmbeddingsStrategy_anonymize p sc token =
     (if token = [] then None
      else
        let featureString = tokenFeatures sc token;
            salt = ''semantic_local-sentence-transformer_384'';
            hash = hashWithSalt p featureString salt
        in Some (''sem_'' @ filter isAlnum (take 12 hash)))"

subsection \<open>The engine (core/anonEngine.ts)\<close>

record AnonymizationResult =
  anonPrompt :: string
  r_mapId :: string
  r_signature :: "string option"

text \<open>
  The state of an \<^verbatim>\<open>AnonEngine\<close>: its configuration, its storage (the in-memory
  backend) and its hash strategy. The class \<^verbatim>\<open>HashSaltStrategy\<close> is not among the
  sources, so the engine holds its method \<^verbatim>\<open>anonymize(token, config)\<close> as a function,
  \<open>None\<close> when it throws. The detector of an engine always has the default
  configuration.
\<close>

record AnonEngine =
  config :: AnonProxyConfig
  eng_storage :: MemoryStorage
  hashSaltStrategy :: "string \<Rightarrow> AnonProxyConfig \<Rightarrow> string option"

definition DEFAULT_CONFIG :: AnonProxyConfig where
  "DEFAULT_CONFIG =
     \<lparr>strategy = HASH_SALT, storage = MEMORY, enableSignatures = False,
      signatureSecret = None, enableLogging = False, customSalt = None\<rparr>"

text \<open>\<^verbatim>\<open>validateConfig\<close>; a missing or empty secret is falsy.\<close>

definition validateConfig :: "AnonProxyConfig \<Rightarrow> error + unit" where
  "validateConfig cfg =
     (if enableSignatures cfg \<and> (signatureSecret cfg = None \<or> signatureSecret cfg = Some [])
      then Inl (ValidationError ''Signature secret is required when enableSignatures is true'')
      else Inr ())"

text \<open>
  The constructor, on the merged configuration; \<open>newHashSaltStrategy\<close> stands for
  \<^verbatim>\<open>new HashSaltStrategy(customSalt)\<close>. The process environment has no
  \<^verbatim>\<open>VAULT_TOKEN\<close>, so the Vault backend is refused.
\<close>

definition new_AnonEngine ::
  "(string option \<Rightarrow> string \<Rightarrow> AnonProxyConfig \<Rightarrow> string option) \<Rightarrow> AnonProxyConfig
     \<Rightarrow> error + AnonEngine" where
  "new_AnonEngine newHashSaltStrategy cfg =
     (case validateConfig cfg of
        Inl e \<Rightarrow> Inl e
      | Inr _ \<Rightarrow>
          (case storage cfg of
             MEMORY \<Rightarrow>
               Inr \<lparr>config = cfg, eng_storage = new_MemoryStorage 10000 3600000,
                    hashSaltStrategy = newHashSaltStrategy (customSalt cfg)\<rparr>
           | VAULT \<Rightarrow>
               Inl (StorageError ''VAULT_TOKEN environment variable is required for Vault storage'')))"

text \<open>\<^verbatim>\<open>this.strategy.anonymize(token.value, this.config)\<close>; \<open>None\<close> when it throws.\<close>

definition strategy_anonymize :: "Platform \<Rightarrow> Scoring \<Rightarrow> AnonEngine \<Rightarrow> string \<Rightarrow> string option" where
  "strategy_anonymize p sc eng token =
     (case strategy (config eng) of
        HASH_SALT \<Rightarrow> hashSaltStrategy eng token (config eng)
      | EMBEDDINGS \<Rightarrow> EmbeddingsStrategy_anonymize p sc token)"

text \<open>
  \<^verbatim>\<open>CryptoUtils.createHmac(data, this.config.signatureSecret!)\<close>: without a secret the
  \<^verbatim>\<open>typeof\<close> guard of \<^verbatim>\<open>createHmac\<close> throws a \<^verbatim>\<open>SignatureError\<close>.
\<close>

definition sign :: "Platform \<Rightarrow> AnonProxyConfig \<Rightarrow> string \<Rightarrow> error + string" where
  "sign p cfg data =
     (case signatureSecret cfg of
        None \<Rightarrow> Inl (SignatureError ''Failed to create HMAC: Data and secret must be strings'')
      | Some secret \<Rightarrow> Inr (createHmac p data secret))"

text \<open>\<^verbatim>\<open>JSON.stringify\<close> of a string, and of the array \<^verbatim>\<open>Array.from(mappings.entries())\<close>.\<close>

definition hex_char :: "nat \<Rightarrow> char" where
  "hex_char n = ''0123456789abcdef'' ! (n mod 16)"

definition json_escape :: "char \<Rightarrow> string" where
  "json_escape c =
     (let n = (of_char c :: nat)
      in if n = 0x22 then [CHR 0x5C, CHR 0x22]
         else if n = 0x5C then [CHR 0x5C, CHR 0x5C]
         else if n = 8 then [CHR 0x5C, CHR ''b'']
         else if n = 12 then [CHR 0x5C, CHR ''f'']
         else if n = 10 then [CHR 0x5C, CHR ''n'']
         else if n = 13 then [CHR 0x5C, CHR ''r'']
         else if n = 9 then [CHR 0x5C, CHR ''t'']
         else if n < 32 then [CHR 0x5C, CHR ''u'', CHR ''0'', CHR ''0'', hex_char (n div 16), hex_char n]
         else [c])"

definition json_string :: "string \<Rightarrow> string" where
  "json_string s = [CHR 0x22] @ concat (map json_escape s) @ [CHR 0x22]"

fun json_join :: "string list \<Rightarrow> string" where
  "json_join [] = []"
| "json_join [x] = x"
| "json_join (x # y # xs) = x @ '','' @ json_join (y # xs)"

definition json_entries :: "(string, string) jsmap \<Rightarrow> string" where
  "json_entries entries =
     ''['' @ json_join (map (\<lambda>(k, v). ''['' @ json_string k @ '','' @ json_string v @ '']'') entries)
     @ '']''"

text \<open>
  The loop of \<^verbatim>\<open>anonymize\<close> over the tokens, rightmost first: the mapping and the
  prompt after the replacements; \<open>None\<close> when the strategy throws.
\<close>

fun replace_tokens ::
  "Platform \<Rightarrow> Scoring \<Rightarrow> AnonEngine \<Rightarrow> DetectedToken list \<Rightarrow> (string, string) jsmap \<Rightarrow> string
     \<Rightarrow> ((string, string) jsmap \<times> string) option" where
  "replace_tokens p sc eng [] mappings anonymizedPrompt = Some (mappings, anonymizedPrompt)"
| "replace_tokens p sc eng (token # tokens) mappings anonymizedPrompt =
     (case strategy_anonymize p sc eng (tok_value token) of
        None \<Rightarrow> None
      | Some proxyToken \<Rightarrow>
          replace_tokens p sc eng tokens
            (jsmap_set mappings proxyToken (tok_value token))
            (take (startIndex token) anonymizedPrompt @ proxyToken
               @ drop (endIndex token) anonymizedPrompt))"

text \<open>
  \<^verbatim>\<open>anonymize(prompt)\<close> at time \<open>now\<close>; \<open>newId\<close> is the id that \<^verbatim>\<open>generateId\<close> draws.
  The result is \<open>None\<close> when the detection does not end; otherwise the value or the
  error of the call, and the engine after it.
\<close>

definition anonymize ::
  "Platform \<Rightarrow> Scoring \<Rightarrow> AnonEngine \<Rightarrow> int \<Rightarrow> string \<Rightarrow> string
     \<Rightarrow> ((error + AnonymizationResult) \<times> AnonEngine) option" where
  "anonymize p sc eng now newId prompt =
     (if prompt = [] then Some (Inl (ValidationError ''Prompt must be a non-empty string''), eng)
      else
        case detectTokens (calculateConfidence sc) DEFAULT_DETECTION_CONFIG prompt of
          None \<Rightarrow> None
        | Some detectedTokens \<Rightarrow>
            if detectedTokens = [] then
              (let emptyMapping =
                     \<lparr>md_id = newId, md_mappings = [], md_createdAt = now,
                      md_signature = None, md_strategy = strategy (config eng)\<rparr>
               in case store (eng_storage eng) now newId emptyMapping of
                    Inl e \<Rightarrow> Some (Inl e, eng)
                  | Inr st \<Rightarrow>
                      if enableSignatures (config eng) then
                        (case sign p (config eng) (newId @ '':'' @ prompt) of
                           Inl e \<Rightarrow> Some (Inl e, eng\<lparr>eng_storage := st\<rparr>)
                         | Inr sg \<Rightarrow>
                             Some (Inr \<lparr>anonPrompt = prompt, r_mapId = newId, r_signature = Some sg\<rparr>,
                                   eng\<lparr>eng_storage := st\<rparr>))
                      else
                        Some (Inr \<lparr>anonPrompt = prompt, r_mapId = newId, r_signature = None\<rparr>,
                              eng\<lparr>eng_storage := st\<rparr>))
            else
              (let sortedTokens = sort_key (\<lambda>t. - int (startIndex t)) detectedTokens
               in case replace_tokens p sc eng sortedTokens [] prompt of
                    None \<Rightarrow>
                      Some (Inl (ValidationError ''Failed to anonymize token''), eng)
                  | Some (mappings, anonymizedPrompt) \<Rightarrow>
                      (case (if enableSignatures (config eng)
                             then map_sum id Some
                                    (sign p (config eng) (newId @ '':'' @ json_entries mappings))
                             else Inr None) of
                         Inl e \<Rightarrow> Some (Inl e, eng)
                       | Inr sg \<Rightarrow>
                           (let mappingData =
                                  \<lparr>md_id = newId, md_mappings = mappings, md_createdAt = now,
                                   md_signature = sg, md_strategy = strategy (config eng)\<rparr>
                            in case store (eng_storage eng) now newId mappingData of
                                 Inl e \<Rightarrow> Some (Inl e, eng)
                               | Inr st \<Rightarrow>
                                   Some (Inr \<lparr>anonPrompt = anonymizedPrompt, r_mapId = newId,
                                              r_signature = sg\<rparr>,
                                         eng\<lparr>eng_storage := st\<rparr>)))))"

text \<open>
  The replacement text of \<^verbatim>\<open>String.prototype.replace\<close> for one match of a regular
  expression without groups: \<^verbatim>\<open>$$\<close>, \<^verbatim>\<open>$&\<close>, \<^verbatim>\<open>$`\<close> and \<^verbatim>\<open>$'\<close> are substituted.
\<close>

fun expand :: "string \<Rightarrow> string \<Rightarrow> string \<Rightarrow> string \<Rightarrow> string" where
  "expand [] matched before after = []"
| "expand [c] matched before after = [c]"
| "expand (c # d # r) matched before after =
     (if c = CHR ''$'' \<and> d = CHR ''$'' then CHR ''$'' # expand r matched before after
      else if c = CHR ''$'' \<and> d = CHR ''&'' then matched @ expand r matched before after
      else if c = CHR ''$'' \<and> d = CHR 0x60 then before @ expand r matched before after
      else if c = CHR ''$'' \<and> d = CHR 0x27 then after @ expand r matched before after
      else c # expand (d # r) matched before after)"

text \<open>
  \<^verbatim>\<open>str.replace(new RegExp(escapeRegExp(proxyToken), 'g'), originalToken)\<close> from position
  \<open>i\<close> on: every occurrence of the literal text, left to right, without overlap. An
  empty pattern matches before every code unit and at the end.
\<close>

function replace_from :: "string \<Rightarrow> string \<Rightarrow> string \<Rightarrow> nat \<Rightarrow> string" where
  "replace_from pat replacement str i =
     (if i > length str then []
      else if take (length pat) (drop i str) = pat
      then expand replacement pat (take i str) (drop (i + length pat) str)
           @ (if pat = []
              then (if i < length str then str ! i # replace_from pat replacement str (i + 1) else [])
              else replace_from pat replacement str (i + length pat))
      else (if i < length str then str ! i # replace_from pat replacement str (i + 1) else []))"
  by pat_completeness auto
termination
  by (relation "measure (\<lambda>(pat, replacement, str, i). length str + 1 - i)")
    (auto simp: neq_Nil_conv)

declare replace_from.simps [simp del]

definition replace_global :: "string \<Rightarrow> string \<Rightarrow> string \<Rightarrow> string" where
  "replace_global proxyToken originalToken str = replace_from proxyToken originalToken str 0"

text \<open>The loop of \<^verbatim>\<open>deanonymize\<close> over the entries of the mapping.\<close>

definition restore_all :: "(string, string) jsmap \<Rightarrow> string \<Rightarrow> string" where
  "restore_all entries output =
     foldl (\<lambda>deanonymizedOutput (proxyToken, originalToken).
              replace_global proxyToken originalToken deanonymizedOutput) output entries"

text \<open>The signature checks of \<^verbatim>\<open>deanonymize\<close>; a missing or empty string is falsy.\<close>

definition check_signature ::
  "Platform \<Rightarrow> AnonProxyConfig \<Rightarrow> string \<Rightarrow> string option \<Rightarrow> MappingData \<Rightarrow> error + unit" where
  "check_signature p cfg mapId' signature' mappingData =
     (case signature' of
        None \<Rightarrow> Inl (SignatureError ''Signature is required when signatures are enabled'')
      | Some sg \<Rightarrow>
          if sg = [] then Inl (SignatureError ''Signature is required when signatures are enabled'')
          else
            (case md_signature mappingData of
               None \<Rightarrow> Inl (SignatureError ''Stored mapping does not have a signature'')
             | Some stored \<Rightarrow>
                 if stored = [] then Inl (SignatureError ''Stored mapping does not have a signature'')
                 else if \<not> constantTimeCompare sg stored
                 then Inl (SignatureError ''Invalid signature - mapping may have been tampered with'')
                 else
                   (let dataToVerify = mapId' @ '':'' @ json_entries (md_mappings mappingData)
                    in case signatureSecret cfg of
                         None \<Rightarrow> Inl (SignatureError ''Failed to verify HMAC'')
                       | Some secret \<Rightarrow>
                           if \<not> verifyHmac p dataToVerify stored secret
                           then Inl (SignatureError ''Mapping data signature verification failed'')
                           else Inr ())))"

text \<open>
  \<^verbatim>\<open>deanonymize(output, mapId, signature?)\<close> at time \<open>now\<close>: the value or the error of the
  call, and the engine after it (\<^verbatim>\<open>retrieve\<close> deletes an expired entry).
\<close>

definition deanonymize ::
  "Platform \<Rightarrow> AnonEngine \<Rightarrow> int \<Rightarrow> string \<Rightarrow> string \<Rightarrow> string option
     \<Rightarrow> (error + string) \<times> AnonEngine" where
  "deanonymize p eng now output mapId' signature' =
     (if output = [] then (Inl (ValidationError ''Output must be a non-empty string''), eng)
      else if mapId' = [] then (Inl (ValidationError ''Map ID must be a non-empty string''), eng)
      else
        case retrieve (eng_storage eng) now mapId' of
          Inl e \<Rightarrow> (Inl e, eng)
        | Inr (None, st) \<Rightarrow>
            (Inl (ValidationError (''Mapping not found for ID: '' @ mapId')),
             eng\<lparr>eng_storage := st\<rparr>)
        | Inr (Some mappingData, st) \<Rightarrow>
            (case (if enableSignatures (config eng)
                   then check_signature p (config eng) mapId' signature' mappingData
                   else Inr ()) of
               Inl e \<Rightarrow> (Inl e, eng\<lparr>eng_storage := st\<rparr>)
             | Inr _ \<Rightarrow>
                 if length (md_mappings mappingData) = 0
                 then (Inr output, eng\<lparr>eng_storage := st\<rparr>)
                 else (Inr (restore_all (md_mappings mappingData) output),
                       eng\<lparr>eng_storage := st\<rparr>)))"

subsection \<open>Outside changes of the storage\<close>

text \<open>
  The storage of an engine after someone else has overwritten the signature field of
  every stored mapping (\<open>f\<close> gives the new field), and after someone else has replaced
  the entries of the mapping stored under one id. Neither is an operation of the
  engine.
\<close>

definition with_stored_signatures :: "(string \<Rightarrow> MappingData \<Rightarrow> string option) \<Rightarrow> AnonEngine \<Rightarrow> AnonEngine" where
  "with_stored_signatures f eng =
     eng\<lparr>eng_storage := (eng_storage eng)
       \<lparr>ms_mappings := map (\<lambda>(k, d). (k, d\<lparr>md_signature := f k d\<rparr>)) (ms_mappings (eng_storage eng))\<rparr>\<rparr>"

definition with_stored_entries :: "string \<Rightarrow> (string, string) jsmap \<Rightarrow> AnonEngine \<Rightarrow> AnonEngine" where
  "with_stored_entries mapId' entries eng =
     eng\<lparr>eng_storage := (eng_storage eng)
       \<lparr>ms_mappings := map (\<lambda>(k, d). (k, if k = mapId' then d\<lparr>md_mappings := entries\<rparr> else d))
                          (ms_mappings (eng_storage eng))\<rparr>\<rparr>"

subsection \<open>Examples\<close>

text \<open>
  \<^verbatim>\<open>String.prototype.includes\<close>, which the tests use through \<^verbatim>\<open>toContain\<close>.
\<close>

definition str_includes :: "string \<Rightarrow> string \<Rightarrow> bool" where
  "str_includes s searchString = sublist searchString s"

text \<open>
  Stand-ins for the digests in the examples: every byte of a digest is the length of
  its input.
\<close>

definition test_platform :: Platform where
  "test_platform =
     \<lparr>sha256 = (\<lambda>s. replicate 32 (of_nat (length s))),
      hmac_sha256 = (\<lambda>secret data. replicate 32 (of_nat (length secret + length data)))\<rparr>"

text \<open>
  The scores that \<^verbatim>\<open>calculateConfidence\<close> gives to the tokens of the examples.
\<close>

definition test_scoring :: Scoring where
  "test_scoring =
     \<lparr>calculateConfidence =
        (\<lambda>t v. if t = ''PHONE'' then 7 / 10 else if t = ''EMAIL'' then 9 / 10 else 19 / 20),
      tokenFeatures = (\<lambda>t. [])\<rparr>"

text \<open>
  The engine that the constructor builds in the examples, and a configuration with
  signatures.
\<close>

definition test_engine :: "AnonProxyConfig \<Rightarrow> AnonEngine" where
  "test_engine cfg =
     \<lparr>config = cfg, eng_storage = new_MemoryStorage 10000 3600000,
      hashSaltStrategy = HashSaltStrategy test_platform ''salt'' (customSalt cfg)\<rparr>"

definition signed_config :: AnonProxyConfig where
  "signed_config = DEFAULT_CONFIG\<lparr>enableSignatures := True, signatureSecret := Some ''test-secret-key''\<rparr>"

text \<open>
  The expression \<^verbatim>\<open>/anon_[a-zA-Z0-9]+/\<close> with which the integration tests pick a proxy
  token out of an anonymized prompt, and all the tokens of that form in a text.
\<close>

definition PROXY_TOKEN :: RegExp where
  "PROXY_TOKEN =
     \<lparr>re_source = seq [lit ''anon_'', plus (Cls False alnum_class)],
      re_global = True, re_ignoreCase = False\<rparr>"

definition proxy_tokens :: "string \<Rightarrow> string list option" where
  "proxy_tokens text = map_option (map (match_text text)) (execAll PROXY_TOKEN text 0)"

text \<open>
  What can follow a maximal run of alphanumeric code units: the end of the input, or a
  code unit outside \<^verbatim>\<open>[a-zA-Z0-9]\<close>.
\<close>

definition stops :: "nat list \<Rightarrow> bool" where
  "stops rest = (case rest of [] \<Rightarrow> True | c # cs \<Rightarrow> \<not> class_matches False False alnum_class c)"

text \<open>
  The scores that \<^verbatim>\<open>calculateConfidence\<close> gives to the three candidates of the text
  \<^verbatim>\<open>pwd=abcdefgh@example.org,5555555555\<close>.
\<close>

definition overlap_scores :: "string \<Rightarrow> string \<Rightarrow> real" where
  "overlap_scores patternType v =
     (if patternType = ''PASSWORD'' then 7 / 10 else if patternType = ''EMAIL'' then 9 / 10 else 1 / 2)"


text \<open>A mapping record used in the examples; its timestamp is the caller's.\<close>

definition example_mapping :: "string \<Rightarrow> MappingData" where
  "example_mapping i =
     \<lparr>md_id = i, md_mappings = [(''anon_Zm9v'', ''secret-value'')], md_createdAt = 5,
      md_signature = None, md_strategy = HASH_SALT\<rparr>"

section \<open>Theorems\<close>

subsection \<open>Constant-time comparison\<close>

lemma ctc_loop_snd: "i \<le> length a \<Longrightarrow> snd (ctc_loop a b i r) = length a"
proof (induction a b i r rule: ctc_loop.induct)
  case (1 a b i result)
  show ?case
  proof (cases "i < length a")
    case True
    with 1 show ?thesis by (subst ctc_loop.simps) simp
  next
    case False
    with 1 show ?thesis by (subst ctc_loop.simps) simp
  qed
qed

lemma xor_nat_eq_0_iff: "(x::nat) XOR y = 0 \<longleftrightarrow> x = y"
  by (metis xor_self_eq xor.right_neutral xor.assoc)

lemma ctc_loop_fst:
  "length a = length b \<Longrightarrow> i \<le> length a \<Longrightarrow>
   fst (ctc_loop a b i r) = 0 \<longleftrightarrow> r = 0 \<and> drop i a = drop i b"
proof (induction a b i r rule: ctc_loop.induct)
  case (1 a b i result)
  show ?case
  proof (cases "i < length a")
    case True
    then have ib: "i < length b" using "1.prems" by simp
    have da: "drop i a = a ! i # drop (Suc i) a"
      using True by (simp add: Cons_nth_drop_Suc)
    have db: "drop i b = b ! i # drop (Suc i) b"
      using ib by (simp add: Cons_nth_drop_Suc)
    have step: "fst (ctc_loop a b i result) =
        fst (ctc_loop a b (i + 1) (result OR (charCodeAt a i XOR charCodeAt b i)))"
      using True by (subst ctc_loop.simps) simp
    have IH: "fst (ctc_loop a b (i + 1) (result OR (charCodeAt a i XOR charCodeAt b i))) = 0
        \<longleftrightarrow> (result OR (charCodeAt a i XOR charCodeAt b i)) = 0
            \<and> drop (i + 1) a = drop (i + 1) b"
      using "1.IH" [OF True] "1.prems" True by simp
    have "charCodeAt a i XOR charCodeAt b i = 0 \<longleftrightarrow> a ! i = b ! i"
      using True ib by (simp add: charCodeAt_def xor_nat_eq_0_iff)
    then show ?thesis
      using step IH da db by (auto simp: or_eq_0_iff)
  next
    case False
    then have "drop i a = []" "drop i b = []" using "1.prems" by simp_all
    moreover have "ctc_loop a b i result = (result, i)"
      using False by (subst ctc_loop.simps) simp
    ultimately show ?thesis by simp
  qed
qed

text \<open>
  Claim C9. \<^verbatim>\<open>constantTimeCompare(a, b)\<close> is true exactly when the two strings are
  equal (so it is false for unequal strings of equal length and for strings of unequal
  length, and true for two empty strings); on inputs of equal length the loop visits
  every position, whatever the contents, and on inputs of unequal length it returns at
  once.
\<close>

theorem constantTimeCompare_iff_equal:
  "(constantTimeCompare a b \<longleftrightarrow> a = b)
   \<and> constantTimeCompare_scanned a b = (if length a = length b then length a else 0)"
proof -
  have "constantTimeCompare a b \<longleftrightarrow> a = b"
  proof (cases "length a = length b")
    case True
    then show ?thesis
      using ctc_loop_fst [of a b 0 0] by (simp add: constantTimeCompare_def)
  next
    case False
    then show ?thesis by (auto simp: constantTimeCompare_def)
  qed
  moreover have "constantTimeCompare_scanned a b = (if length a = length b then length a else 0)"
    using ctc_loop_snd [of 0 a b 0] by (simp add: constantTimeCompare_scanned_def)
  ultimately show ?thesis by simp
qed

subsection \<open>The Map operations\<close>

lemma jsmap_keys_Nil [simp]: "jsmap_keys [] = []"
  by (simp add: jsmap_keys_def)

lemma jsmap_keys_Cons [simp]: "jsmap_keys ((k, v) # m) = k # jsmap_keys m"
  by (simp add: jsmap_keys_def)

lemma jsmap_keys_set:
  "jsmap_keys (jsmap_set m k v) =
     (if k \<in> set (jsmap_keys m) then jsmap_keys m else jsmap_keys m @ [k])"
  by (induction m) (auto simp: jsmap_keys_def rev_image_eqI)

lemma jsmap_set_new: "k \<notin> set (jsmap_keys m) \<Longrightarrow> jsmap_set m k v = m @ [(k, v)]"
  by (induction m) (auto simp: jsmap_keys_def)

lemma map_of_jsmap_set: "map_of (jsmap_set m k v) = (map_of m)(k \<mapsto> v)"
  by (induction m) (auto simp: fun_eq_iff)

lemma jsmap_has_iff: "jsmap_has m k \<longleftrightarrow> k \<in> set (jsmap_keys m)"
  by (simp add: jsmap_has_def jsmap_keys_def map_of_eq_None_iff)

lemma jsmap_keys_delete: "jsmap_keys (jsmap_delete m k) = filter (\<lambda>x. x \<noteq> k) (jsmap_keys m)"
  by (simp add: jsmap_delete_def jsmap_keys_def filter_map comp_def)

lemma jsmap_delete_hd:
  "distinct (jsmap_keys ((k, v) # m)) \<Longrightarrow> jsmap_delete ((k, v) # m) k = m"
  by (auto simp: jsmap_delete_def jsmap_keys_def intro!: filter_True)

lemma map_of_jsmap_delete: "map_of (jsmap_delete m k) = (map_of m)(k := None)"
  by (induction m) (auto simp: jsmap_delete_def fun_eq_iff)

lemma length_jsmap_keys: "length (jsmap_keys m) = length m"
  by (simp add: jsmap_keys_def)

lemma length_jsmap_delete:
  "distinct (jsmap_keys m) \<Longrightarrow> k \<in> set (jsmap_keys m) \<Longrightarrow>
   length (jsmap_delete m k) + 1 = length m"
proof -
  assume d: "distinct (jsmap_keys m)" and k: "k \<in> set (jsmap_keys m)"
  have "length (filter (\<lambda>x. x \<noteq> k) (jsmap_keys m)) + 1 = length (jsmap_keys m)"
    using d k
  proof (induction "jsmap_keys m" arbitrary: m)
    case Nil
    then show ?case by simp
  next
    case (Cons x xs)
    obtain e m' where m: "m = e # m'" and x: "x = fst e" and xs: "xs = jsmap_keys m'"
      using Cons.hyps(2) by (cases m) (auto simp: jsmap_keys_def)
    show ?case
    proof (cases "x = k")
      case True
      then have "k \<notin> set xs" using Cons.prems Cons.hyps(2) [symmetric] by simp
      then have "filter (\<lambda>x. x \<noteq> k) xs = xs" by (auto intro!: filter_True)
      with True show ?thesis using Cons.hyps(2) [symmetric] by simp
    next
      case False
      then have "k \<in> set xs" "distinct xs"
        using Cons.prems Cons.hyps(2) [symmetric] by auto
      then have "length (filter (\<lambda>x. x \<noteq> k) (jsmap_keys m')) + 1 = length (jsmap_keys m')"
        using Cons.hyps(1) [OF xs] xs by simp
      with False show ?thesis using Cons.hyps(2) [symmetric] xs by simp
    qed
  qed
  then show ?thesis
    by (simp add: jsmap_keys_delete [symmetric] length_jsmap_keys)
qed

subsection \<open>The storage invariant\<close>

lemma table_ok_new: "table_ok (new_MemoryStorage n t)"
  by (simp add: table_ok_def new_MemoryStorage_def)

lemma table_ok_store: "table_ok st \<Longrightarrow> store st now mapId d = Inr st' \<Longrightarrow> table_ok st'"
  by (auto simp: table_ok_def store_def Let_def jsmap_keys_set jsmap_keys_delete
      split: if_splits list.splits)

lemma table_ok_retrieve:
  "table_ok st \<Longrightarrow> retrieve st now mapId = Inr (r, st') \<Longrightarrow> table_ok st'"
  by (auto simp: table_ok_def retrieve_def jsmap_keys_delete
      split: if_splits option.splits)

lemma table_ok_delete: "table_ok st \<Longrightarrow> delete st mapId = Inr st' \<Longrightarrow> table_ok st'"
  by (auto simp: table_ok_def delete_def jsmap_keys_delete split: if_splits)


subsection \<open>Eviction at capacity\<close>

lemma store_new_at_capacity:
  assumes ok: "table_ok st" and id: "mapId \<noteq> []"
    and new: "\<not> jsmap_has (ms_mappings st) mapId"
    and full: "int (length (ms_mappings st)) \<ge> maxSize st"
    and m: "ms_mappings st = (k0, d0) # rest"
  shows "store st now mapId d =
           Inr (st\<lparr>ms_mappings := rest @ [(mapId, d\<lparr>md_createdAt := now\<rparr>)]\<rparr>)"
    and "retrieve (st\<lparr>ms_mappings := rest @ [(mapId, d\<lparr>md_createdAt := now\<rparr>)]\<rparr>) now' k0 =
           Inr (None, st\<lparr>ms_mappings := rest @ [(mapId, d\<lparr>md_createdAt := now\<rparr>)]\<rparr>)"
proof -
  have k0: "k0 \<noteq> []" and k0rest: "k0 \<notin> set (jsmap_keys rest)"
    and drest: "distinct (jsmap_keys rest)"
    using ok m by (auto simp: table_ok_def)
  have idk: "mapId \<noteq> k0" and idrest: "mapId \<notin> set (jsmap_keys rest)"
    using new m by (auto simp: jsmap_has_iff)
  have del: "jsmap_delete ((k0, d0) # rest) k0 = rest"
    using k0rest drest by (intro jsmap_delete_hd) simp
  show "store st now mapId d =
           Inr (st\<lparr>ms_mappings := rest @ [(mapId, d\<lparr>md_createdAt := now\<rparr>)]\<rparr>)"
    using id new full k0 del idrest
    by (simp add: store_def m Let_def jsmap_set_new del: jsmap_set.simps)
  have "jsmap_get (rest @ [(mapId, d\<lparr>md_createdAt := now\<rparr>)]) k0 = None"
    unfolding jsmap_get_def map_of_eq_None_iff
    using k0rest idk by (auto simp: jsmap_keys_def)
  then show "retrieve (st\<lparr>ms_mappings := rest @ [(mapId, d\<lparr>md_createdAt := now\<rparr>)]\<rparr>) now' k0 =
           Inr (None, st\<lparr>ms_mappings := rest @ [(mapId, d\<lparr>md_createdAt := now\<rparr>)]\<rparr>)"
    using k0 by (simp add: retrieve_def)
qed

lemma store_new_below_capacity:
  assumes id: "mapId \<noteq> []" and new: "\<not> jsmap_has (ms_mappings st) mapId"
    and room: "int (length (ms_mappings st)) < maxSize st"
  shows "store st now mapId d =
           Inr (st\<lparr>ms_mappings := ms_mappings st @ [(mapId, d\<lparr>md_createdAt := now\<rparr>)]\<rparr>)"
  using assms by (simp add: store_def Let_def jsmap_set_new jsmap_has_iff)

lemma store_existing:
  assumes id: "mapId \<noteq> []" and old: "jsmap_has (ms_mappings st) mapId"
  shows "store st now mapId d =
           Inr (st\<lparr>ms_mappings := jsmap_set (ms_mappings st) mapId (d\<lparr>md_createdAt := now\<rparr>)\<rparr>)"
    and "jsmap_keys (jsmap_set (ms_mappings st) mapId (d\<lparr>md_createdAt := now\<rparr>)) =
           jsmap_keys (ms_mappings st)"
  using assms by (simp_all add: store_def Let_def jsmap_keys_set jsmap_has_iff)

text \<open>
  Claim C7. In a storage whose table is well formed, storing under a non-empty id
  that is not in the table while the table holds at least \<open>maxSize\<close> entries deletes
  the first (oldest-inserted) entry of the table and appends the new one, and a
  later \<^verbatim>\<open>retrieve\<close> of the deleted id returns absent; below capacity nothing is
  deleted; storing under an id already in the table keeps every key, in the same
  order.
\<close>

theorem store_evicts_oldest_for_new_id_only:
  assumes ok: "table_ok st" and id: "mapId \<noteq> []"
  shows
    "(\<not> jsmap_has (ms_mappings st) mapId \<and> int (length (ms_mappings st)) \<ge> maxSize st
        \<and> ms_mappings st = (k0, d0) # rest \<longrightarrow>
        store st now mapId d =
          Inr (st\<lparr>ms_mappings := rest @ [(mapId, d\<lparr>md_createdAt := now\<rparr>)]\<rparr>)
        \<and> retrieve (st\<lparr>ms_mappings := rest @ [(mapId, d\<lparr>md_createdAt := now\<rparr>)]\<rparr>) now' k0 =
          Inr (None, st\<lparr>ms_mappings := rest @ [(mapId, d\<lparr>md_createdAt := now\<rparr>)]\<rparr>))
     \<and> (\<not> jsmap_has (ms_mappings st) mapId \<and> int (length (ms_mappings st)) < maxSize st \<longrightarrow>
        store st now mapId d =
          Inr (st\<lparr>ms_mappings := ms_mappings st @ [(mapId, d\<lparr>md_createdAt := now\<rparr>)]\<rparr>))
     \<and> (jsmap_has (ms_mappings st) mapId \<longrightarrow>
        (\<exists>st'. store st now mapId d = Inr st'
           \<and> jsmap_keys (ms_mappings st') = jsmap_keys (ms_mappings st)))"
proof -
  have 1: "\<not> jsmap_has (ms_mappings st) mapId \<and> int (length (ms_mappings st)) \<ge> maxSize st
        \<and> ms_mappings st = (k0, d0) # rest \<longrightarrow>
        store st now mapId d =
          Inr (st\<lparr>ms_mappings := rest @ [(mapId, d\<lparr>md_createdAt := now\<rparr>)]\<rparr>)
        \<and> retrieve (st\<lparr>ms_mappings := rest @ [(mapId, d\<lparr>md_createdAt := now\<rparr>)]\<rparr>) now' k0 =
          Inr (None, st\<lparr>ms_mappings := rest @ [(mapId, d\<lparr>md_createdAt := now\<rparr>)]\<rparr>)"
    using store_new_at_capacity [OF ok id] by blast
  have 2: "\<not> jsmap_has (ms_mappings st) mapId \<and> int (length (ms_mappings st)) < maxSize st \<longrightarrow>
        store st now mapId d =
          Inr (st\<lparr>ms_mappings := ms_mappings st @ [(mapId, d\<lparr>md_createdAt := now\<rparr>)]\<rparr>)"
    using store_new_below_capacity [OF id] by blast
  have 3: "jsmap_has (ms_mappings st) mapId \<longrightarrow>
        (\<exists>st'. store st now mapId d = Inr st'
           \<and> jsmap_keys (ms_mappings st') = jsmap_keys (ms_mappings st))"
    using store_existing [OF id, of st now d] by simp
  show ?thesis using 1 2 3 by (intro conjI)
qed

text \<open>
  The example of the specification: capacity 2, three distinct new ids stored in
  turn; the first id is then absent.
\<close>

theorem store_evicts_oldest_witness:
  "store (new_MemoryStorage 2 3600000) 10 ''id1'' (example_mapping ''id1'') =
     Inr \<lparr>ms_mappings = [(''id1'', example_mapping ''id1'' \<lparr>md_createdAt := 10\<rparr>)],
          maxSize = 2, ttlMs = 3600000\<rparr>
   \<and> store \<lparr>ms_mappings = [(''id1'', example_mapping ''id1'' \<lparr>md_createdAt := 10\<rparr>)],
          maxSize = 2, ttlMs = 3600000\<rparr> 20 ''id2'' (example_mapping ''id2'') =
     Inr \<lparr>ms_mappings = [(''id1'', example_mapping ''id1'' \<lparr>md_createdAt := 10\<rparr>),
                          (''id2'', example_mapping ''id2'' \<lparr>md_createdAt := 20\<rparr>)],
          maxSize = 2, ttlMs = 3600000\<rparr>
   \<and> store \<lparr>ms_mappings = [(''id1'', example_mapping ''id1'' \<lparr>md_createdAt := 10\<rparr>),
                          (''id2'', example_mapping ''id2'' \<lparr>md_createdAt := 20\<rparr>)],
          maxSize = 2, ttlMs = 3600000\<rparr> 30 ''id3'' (example_mapping ''id3'') =
     Inr \<lparr>ms_mappings = [(''id2'', example_mapping ''id2'' \<lparr>md_createdAt := 20\<rparr>),
                          (''id3'', example_mapping ''id3'' \<lparr>md_createdAt := 30\<rparr>)],
          maxSize = 2, ttlMs = 3600000\<rparr>
   \<and> retrieve \<lparr>ms_mappings = [(''id2'', example_mapping ''id2'' \<lparr>md_createdAt := 20\<rparr>),
                          (''id3'', example_mapping ''id3'' \<lparr>md_createdAt := 30\<rparr>)],
          maxSize = 2, ttlMs = 3600000\<rparr> 40 ''id1'' =
     Inr (None, \<lparr>ms_mappings = [(''id2'', example_mapping ''id2'' \<lparr>md_createdAt := 20\<rparr>),
                          (''id3'', example_mapping ''id3'' \<lparr>md_createdAt := 30\<rparr>)],
          maxSize = 2, ttlMs = 3600000\<rparr>)"
proof -
  let ?d1 = "example_mapping ''id1'' \<lparr>md_createdAt := 10\<rparr>"
  let ?d2 = "example_mapping ''id2'' \<lparr>md_createdAt := 20\<rparr>"
  let ?s2 = "\<lparr>ms_mappings = [(''id1'', ?d1), (''id2'', ?d2)], maxSize = 2, ttlMs = 3600000\<rparr>"
  have ok: "table_ok ?s2" by (simp add: table_ok_def)
  have id: "''id3'' \<noteq> []" by simp
  have pre: "\<not> jsmap_has (ms_mappings ?s2) ''id3''
      \<and> int (length (ms_mappings ?s2)) \<ge> maxSize ?s2
      \<and> ms_mappings ?s2 = (''id1'', ?d1) # [(''id2'', ?d2)]"
    by (simp add: jsmap_has_def)
  have 1: "store (new_MemoryStorage 2 3600000) 10 ''id1'' (example_mapping ''id1'') =
     Inr \<lparr>ms_mappings = [(''id1'', ?d1)], maxSize = 2, ttlMs = 3600000\<rparr>"
    by (simp add: store_def new_MemoryStorage_def jsmap_has_def)
  have 2: "store \<lparr>ms_mappings = [(''id1'', ?d1)], maxSize = 2, ttlMs = 3600000\<rparr> 20 ''id2''
      (example_mapping ''id2'') = Inr ?s2"
    by (simp add: store_def jsmap_has_def)
  show ?thesis
    using store_evicts_oldest_for_new_id_only
      [OF ok id, of "''id1''" ?d1 "[(''id2'', ?d2)]" 30 "example_mapping ''id3''" 40] pre 1 2
    by simp
qed

subsection \<open>Time to live\<close>

lemma store_stamps:
  assumes id: "mapId \<noteq> []"
  shows "\<exists>st'. store st now mapId d = Inr st'
           \<and> jsmap_get (ms_mappings st') mapId = Some (d\<lparr>md_createdAt := now\<rparr>)"
  using id by (simp add: store_def Let_def jsmap_get_def map_of_jsmap_set)

lemma retrieve_expired:
  assumes ok: "table_ok st" and id: "mapId \<noteq> []"
    and ttl: "ttlMs st > 0" and e: "jsmap_get (ms_mappings st) mapId = Some e"
    and age: "now - md_createdAt e > ttlMs st"
  shows "retrieve st now mapId =
           Inr (None, st\<lparr>ms_mappings := jsmap_delete (ms_mappings st) mapId\<rparr>)"
    and "\<not> jsmap_has (jsmap_delete (ms_mappings st) mapId) mapId"
    and "length (jsmap_delete (ms_mappings st) mapId) + 1 = length (ms_mappings st)"
proof -
  show "retrieve st now mapId =
           Inr (None, st\<lparr>ms_mappings := jsmap_delete (ms_mappings st) mapId\<rparr>)"
    using id ttl e age by (simp add: retrieve_def)
  show "\<not> jsmap_has (jsmap_delete (ms_mappings st) mapId) mapId"
    by (simp add: jsmap_has_def map_of_jsmap_delete)
  have "mapId \<in> set (jsmap_keys (ms_mappings st))"
    using e by (simp add: jsmap_has_iff [symmetric] jsmap_has_def jsmap_get_def)
  then show "length (jsmap_delete (ms_mappings st) mapId) + 1 = length (ms_mappings st)"
    using ok by (intro length_jsmap_delete) (simp_all add: table_ok_def)
qed

lemma retrieve_fresh:
  assumes id: "mapId \<noteq> []" and e: "jsmap_get (ms_mappings st) mapId = Some e"
    and fresh: "\<not> (ttlMs st > 0 \<and> now - md_createdAt e > ttlMs st)"
  shows "retrieve st now mapId = Inr (Some e, st)"
  using assms by (simp add: retrieve_def)

text \<open>
  Claim C8. \<^verbatim>\<open>store\<close> under a non-empty id always succeeds and the entry it leaves
  carries the time of the call as \<open>createdAt\<close>, whatever timestamp the caller
  supplied. With \<open>ttlMs > 0\<close>, \<^verbatim>\<open>retrieve\<close> of an entry older than \<open>ttlMs\<close> returns
  absent and deletes the entry, so the table is one entry shorter; an entry that is
  not older is returned and the table is unchanged.
\<close>

theorem store_stamps_now_and_retrieve_expires:
  assumes ok: "table_ok st" and id: "mapId \<noteq> []"
  shows
    "(\<exists>st'. store st now mapId d = Inr st'
        \<and> jsmap_get (ms_mappings st') mapId = Some (d\<lparr>md_createdAt := now\<rparr>))
     \<and> (ttlMs st > 0 \<and> jsmap_get (ms_mappings st) mapId = Some e
          \<and> now - md_createdAt e > ttlMs st \<longrightarrow>
        retrieve st now mapId =
          Inr (None, st\<lparr>ms_mappings := jsmap_delete (ms_mappings st) mapId\<rparr>)
        \<and> \<not> jsmap_has (jsmap_delete (ms_mappings st) mapId) mapId
        \<and> length (jsmap_delete (ms_mappings st) mapId) + 1 = length (ms_mappings st))
     \<and> (jsmap_get (ms_mappings st) mapId = Some e
          \<and> \<not> (ttlMs st > 0 \<and> now - md_createdAt e > ttlMs st) \<longrightarrow>
        retrieve st now mapId = Inr (Some e, st))"
  using store_stamps [OF id] retrieve_expired [OF ok id] retrieve_fresh [OF id]
  by blast

text \<open>
  The example of the specification: a time to live of 100 ms, a store at time 1000
  and a retrieve 150 ms later. The entry is absent and the table is empty again.
\<close>

theorem store_stamps_now_and_retrieve_expires_witness:
  "store (new_MemoryStorage 2 100) 1000 ''id1'' (example_mapping ''id1'') =
     Inr \<lparr>ms_mappings = [(''id1'', example_mapping ''id1'' \<lparr>md_createdAt := 1000\<rparr>)],
          maxSize = 2, ttlMs = 100\<rparr>
   \<and> retrieve \<lparr>ms_mappings = [(''id1'', example_mapping ''id1'' \<lparr>md_createdAt := 1000\<rparr>)],
          maxSize = 2, ttlMs = 100\<rparr> 1150 ''id1'' =
     Inr (None, \<lparr>ms_mappings = [], maxSize = 2, ttlMs = 100\<rparr>)
   \<and> retrieve \<lparr>ms_mappings = [(''id1'', example_mapping ''id1'' \<lparr>md_createdAt := 1000\<rparr>)],
          maxSize = 2, ttlMs = 100\<rparr> 1100 ''id1'' =
     Inr (Some (example_mapping ''id1'' \<lparr>md_createdAt := 1000\<rparr>),
          \<lparr>ms_mappings = [(''id1'', example_mapping ''id1'' \<lparr>md_createdAt := 1000\<rparr>)],
          maxSize = 2, ttlMs = 100\<rparr>)"
proof -
  let ?d1 = "example_mapping ''id1'' \<lparr>md_createdAt := 1000\<rparr>"
  let ?s1 = "\<lparr>ms_mappings = [(''id1'', ?d1)], maxSize = 2, ttlMs = 100\<rparr>"
  have ok: "table_ok ?s1" by (simp add: table_ok_def)
  have id: "''id1'' \<noteq> []" by simp
  have 1: "store (new_MemoryStorage 2 100) 1000 ''id1'' (example_mapping ''id1'') = Inr ?s1"
    by (simp add: store_def new_MemoryStorage_def jsmap_has_def)
  have old: "ttlMs ?s1 > 0 \<and> jsmap_get (ms_mappings ?s1) ''id1'' = Some ?d1
      \<and> 1150 - md_createdAt ?d1 > ttlMs ?s1"
    by (simp add: jsmap_get_def)
  have fresh: "jsmap_get (ms_mappings ?s1) ''id1'' = Some ?d1
      \<and> \<not> (ttlMs ?s1 > 0 \<and> 1100 - md_createdAt ?d1 > ttlMs ?s1)"
    by (simp add: jsmap_get_def)
  have del: "jsmap_delete (ms_mappings ?s1) ''id1'' = []"
    by (simp add: jsmap_delete_def)
  show ?thesis
    using store_stamps_now_and_retrieve_expires [OF ok id, of 1150 "example_mapping ''id1''" ?d1]
      store_stamps_now_and_retrieve_expires [OF ok id, of 1100 "example_mapping ''id1''" ?d1]
      old fresh 1 del
    by simp
qed


subsection \<open>The detector on three texts\<close>

text \<open>
  Evaluation rules for the matcher on explicit states, and the matches of the ten
  default patterns on the lower-case forms of three texts: the prompt of the example
  scenario, the text of the detector's own test for API keys, and a prompt without
  tokens.
\<close>

lemma rep_eval:
  "rep 0 mb mn mx k (pw, i, rest, caps) = (if mn = 0 then k (pw, i, rest, caps) else None)"
  "rep (Suc f) mb mn mx k (pw, i, rest, caps) =
     (if mx = Some 0 then k (pw, i, rest, caps)
      else case mb (\<lambda>s'. if mn = 0 \<and> fst (snd s') = i then None
                          else rep f mb (mn - 1) (dec mx) k s') (pw, i, rest, caps) of
             Some r \<Rightarrow> Some r
           | None \<Rightarrow> if mn = 0 then k (pw, i, rest, caps) else None)"
  "rep (numeral v) mb mn mx k (pw, i, rest, caps) =
     (if mx = Some 0 then k (pw, i, rest, caps)
      else case mb (\<lambda>s'. if mn = 0 \<and> fst (snd s') = i then None
                          else rep (pred_numeral v) mb (mn - 1) (dec mx) k s') (pw, i, rest, caps) of
             Some r \<Rightarrow> Some r
           | None \<Rightarrow> if mn = 0 then k (pw, i, rest, caps) else None)"
  by (simp_all add: numeral_eq_Suc)

lemma matcher_eval:
  "matcher ic (Cls neg rs) k (pw, i, [], caps) = None"
  "matcher ic (Cls neg rs) k (pw, i, c # cs, caps) =
      (if class_matches ic neg rs c then k (isWordChar c, Suc i, cs, caps) else None)"
  "matcher ic Eps k (pw, i, rest, caps) = k (pw, i, rest, caps)"
  "matcher ic (Cat r1 r2) k (pw, i, rest, caps) = matcher ic r1 (matcher ic r2 k) (pw, i, rest, caps)"
  "matcher ic (Alt r1 r2) k (pw, i, rest, caps) =
     (case matcher ic r1 k (pw, i, rest, caps) of Some x \<Rightarrow> Some x | None \<Rightarrow> matcher ic r2 k (pw, i, rest, caps))"
  "matcher ic (Rep mn mx r) k (pw, i, rest, caps) = rep (mn + length rest) (matcher ic r) mn mx k (pw, i, rest, caps)"
  "matcher ic (Grp n r) k (pw, i, rest, caps) =
        matcher ic r (\<lambda>s'. case s' of (pw', j, rest', caps') \<Rightarrow> k (pw', j, rest', (n, i, j) # caps')) (pw, i, rest, caps)"
  "matcher ic WordB k (pw, i, [], caps) = (if pw then k (pw, i, [], caps) else None)"
  "matcher ic WordB k (pw, i, c # cs, caps) = (if pw \<noteq> isWordChar c then k (pw, i, c # cs, caps) else None)"
  "matcher ic (NLook r) k (pw, i, rest, caps) =
     (case matcher ic r Some (pw, i, rest, caps) of Some x \<Rightarrow> None | None \<Rightarrow> k (pw, i, rest, caps))"
  by simp_all

lemmas rx_eval = matcher_eval rep_eval seq_def lit_def opt_def star_def plus_def rng_def ch_def
  class_matches_def in_class_def isWordChar_def canonicalize_def lowerOf_def dec_def
  exec_def execAll.simps gi_def

lemmas cat_defs = ws_class_def alnum_class_def key_class_def space_quote_class_def digit_def
  opt_joiner_def opt_sep_def labelled_def octet_def jwt_part_def hex_digit_def

lemma execAll_prompt:
  "execAll (gi API_KEY) ''api key: sk-1234567890abcdef, email: user@example.com'' 0 = Some [\<lparr>m_index = 4, m_end = 28, m_caps = [(1, 9, 28)]\<rparr>]"
  "execAll (gi ACCESS_TOKEN) ''api key: sk-1234567890abcdef, email: user@example.com'' 0 = Some []"
  "execAll (gi SECRET_KEY) ''api key: sk-1234567890abcdef, email: user@example.com'' 0 = Some []"
  "execAll (gi BEARER_TOKEN) ''api key: sk-1234567890abcdef, email: user@example.com'' 0 = Some []"
  "execAll (gi JWT_TOKEN) ''api key: sk-1234567890abcdef, email: user@example.com'' 0 = Some []"
  "execAll (gi PASSWORD) ''api key: sk-1234567890abcdef, email: user@example.com'' 0 = Some []"
  "execAll (gi EMAIL) ''api key: sk-1234567890abcdef, email: user@example.com'' 0 = Some [\<lparr>m_index = 37, m_end = 53, m_caps = []\<rparr>]"
  "execAll (gi PHONE) ''api key: sk-1234567890abcdef, email: user@example.com'' 0 = Some [\<lparr>m_index = 12, m_end = 22, m_caps = []\<rparr>]"
  "execAll (gi PRIVATE_IP) ''api key: sk-1234567890abcdef, email: user@example.com'' 0 = Some []"
  "execAll (gi UUID) ''api key: sk-1234567890abcdef, email: user@example.com'' 0 = Some []"
  supply matcher.simps [simp del] rep.simps [simp del]
  by (simp_all add: API_KEY_def ACCESS_TOKEN_def SECRET_KEY_def BEARER_TOKEN_def JWT_TOKEN_def PASSWORD_def EMAIL_def PHONE_def PRIVATE_IP_def UUID_def rx_eval cat_defs)

lemma execAll_key_text:
  "execAll (gi API_KEY) ''api key: sk-1234567890abcdef'' 0 = Some [\<lparr>m_index = 4, m_end = 28, m_caps = [(1, 9, 28)]\<rparr>]"
  "execAll (gi ACCESS_TOKEN) ''api key: sk-1234567890abcdef'' 0 = Some []"
  "execAll (gi SECRET_KEY) ''api key: sk-1234567890abcdef'' 0 = Some []"
  "execAll (gi BEARER_TOKEN) ''api key: sk-1234567890abcdef'' 0 = Some []"
  "execAll (gi JWT_TOKEN) ''api key: sk-1234567890abcdef'' 0 = Some []"
  "execAll (gi PASSWORD) ''api key: sk-1234567890abcdef'' 0 = Some []"
  "execAll (gi EMAIL) ''api key: sk-1234567890abcdef'' 0 = Some []"
  "execAll (gi PHONE) ''api key: sk-1234567890abcdef'' 0 = Some [\<lparr>m_index = 12, m_end = 22, m_caps = []\<rparr>]"
  "execAll (gi PRIVATE_IP) ''api key: sk-1234567890abcdef'' 0 = Some []"
  "execAll (gi UUID) ''api key: sk-1234567890abcdef'' 0 = Some []"
  supply matcher.simps [simp del] rep.simps [simp del]
  by (simp_all add: API_KEY_def ACCESS_TOKEN_def SECRET_KEY_def BEARER_TOKEN_def JWT_TOKEN_def PASSWORD_def EMAIL_def PHONE_def PRIVATE_IP_def UUID_def rx_eval cat_defs)

lemma execAll_plain:
  "execAll (gi API_KEY) ''simple prompt'' 0 = Some []"
  "execAll (gi ACCESS_TOKEN) ''simple prompt'' 0 = Some []"
  "execAll (gi SECRET_KEY) ''simple prompt'' 0 = Some []"
  "execAll (gi BEARER_TOKEN) ''simple prompt'' 0 = Some []"
  "execAll (gi JWT_TOKEN) ''simple prompt'' 0 = Some []"
  "execAll (gi PASSWORD) ''simple prompt'' 0 = Some []"
  "execAll (gi EMAIL) ''simple prompt'' 0 = Some []"
  "execAll (gi PHONE) ''simple prompt'' 0 = Some []"
  "execAll (gi PRIVATE_IP) ''simple prompt'' 0 = Some []"
  "execAll (gi UUID) ''simple prompt'' 0 = Some []"
  supply matcher.simps [simp del] rep.simps [simp del]
  by (simp_all add: API_KEY_def ACCESS_TOKEN_def SECRET_KEY_def BEARER_TOKEN_def JWT_TOKEN_def PASSWORD_def EMAIL_def PHONE_def PRIVATE_IP_def UUID_def rx_eval cat_defs)

lemma toLowerCase_texts:
  "toLowerCase ''API key: sk-1234567890abcdef, email: user@example.com''
     = ''api key: sk-1234567890abcdef, email: user@example.com''"
  "toLowerCase ''API key: sk-1234567890abcdef'' = ''api key: sk-1234567890abcdef''"
  "toLowerCase ''Simple prompt'' = ''simple prompt''"
  "toLowerCase ''sk-1234567890abcdef'' = ''sk-1234567890abcdef''"
  "toLowerCase ''user@example.com'' = ''user@example.com''"
  "toLowerCase ''1234567890'' = ''1234567890''"
  by code_simp+

lemmas detect_eval = detected_def DEFAULT_DETECTION_CONFIG_def TOKEN_PATTERNS_def
  List.map_filter_def pattern_token_def match_group_def match_text_def substring_def
  toLowerCase_texts Let_def

lemma detected_prompt:
  "detected conf DEFAULT_DETECTION_CONFIG ''API key: sk-1234567890abcdef, email: user@example.com''
     = Some
        [\<lparr>tok_value = ''key: sk-1234567890a'', tok_type = ''API_KEY'', startIndex = 4,
          endIndex = 23, confidence = conf ''API_KEY'' ''sk-1234567890abcdef''\<rparr>,
         \<lparr>tok_value = ''user@example.com'', tok_type = ''EMAIL'', startIndex = 37,
          endIndex = 53, confidence = conf ''EMAIL'' ''user@example.com''\<rparr>,
         \<lparr>tok_value = ''1234567890'', tok_type = ''PHONE'', startIndex = 12,
          endIndex = 22, confidence = conf ''PHONE'' ''1234567890''\<rparr>]"
  by (simp add: detect_eval execAll_prompt)

lemma detected_key_text:
  "detected conf DEFAULT_DETECTION_CONFIG ''API key: sk-1234567890abcdef''
     = Some
        [\<lparr>tok_value = ''key: sk-1234567890a'', tok_type = ''API_KEY'', startIndex = 4,
          endIndex = 23, confidence = conf ''API_KEY'' ''sk-1234567890abcdef''\<rparr>,
         \<lparr>tok_value = ''1234567890'', tok_type = ''PHONE'', startIndex = 12,
          endIndex = 22, confidence = conf ''PHONE'' ''1234567890''\<rparr>]"
  by (simp add: detect_eval execAll_key_text)

lemma detected_plain:
  "detected conf DEFAULT_DETECTION_CONFIG ''Simple prompt'' = Some []"
  by (simp add: detect_eval execAll_plain)

lemmas dedup_eval = detectTokens_def deduplicateTokens_def dedup_step_def overlaps_def

lemma detectTokens_plain:
  "detectTokens conf DEFAULT_DETECTION_CONFIG ''Simple prompt'' = Some []"
  by (simp add: dedup_eval detected_plain)

lemma detectTokens_prompt:
  "detectTokens conf DEFAULT_DETECTION_CONFIG ''API key: sk-1234567890abcdef, email: user@example.com''
     = Some
        [if conf ''PHONE'' ''1234567890'' > conf ''API_KEY'' ''sk-1234567890abcdef''
         then \<lparr>tok_value = ''1234567890'', tok_type = ''PHONE'', startIndex = 12,
          endIndex = 22, confidence = conf ''PHONE'' ''1234567890''\<rparr>
         else \<lparr>tok_value = ''key: sk-1234567890a'', tok_type = ''API_KEY'', startIndex = 4,
          endIndex = 23, confidence = conf ''API_KEY'' ''sk-1234567890abcdef''\<rparr>,
         \<lparr>tok_value = ''user@example.com'', tok_type = ''EMAIL'', startIndex = 37,
          endIndex = 53, confidence = conf ''EMAIL'' ''user@example.com''\<rparr>]"
  by (simp add: dedup_eval detected_prompt)

subsection \<open>Overlap resolution\<close>

lemma overlaps_later:
  assumes "positive e" "positive t" "startIndex e \<le> startIndex t"
  shows "overlaps t e \<longleftrightarrow> startIndex t < endIndex e"
  using assms unfolding overlaps_def positive_def by auto

lemma overlaps_spans:
  assumes "positive e" "positive t"
  shows "overlaps t e \<longleftrightarrow> spans_overlap t e"
  using assms unfolding overlaps_def positive_def spans_overlap_def by auto

lemma findIndex_last:
  assumes "\<forall>e \<in> set xs. \<not> P e" "P x"
  shows "findIndex P (xs @ [x]) = Some (length xs)"
  using assms by (induction xs) auto

lemma list_ex_iff_last:
  assumes "\<forall>e \<in> set xs. \<not> P e"
  shows "list_ex P (xs @ [x]) \<longleftrightarrow> P x"
  using assms by (auto simp: list_ex_iff)

lemma dedup_step_char:
  assumes sep: "separated res" and pos: "\<forall>e \<in> set res. positive e"
    and t: "positive t"
    and bound: "\<forall>e \<in> set res. startIndex e \<le> startIndex t"
  shows "dedup_step res t =
           (if res = [] \<or> endIndex (last res) \<le> startIndex t then res @ [t]
            else if confidence t > confidence (last res) then butlast res @ [t]
            else res)"
proof (cases res rule: rev_cases)
  case Nil
  then show ?thesis by (simp add: dedup_step_def)
next
  case (snoc ys y)
  have ys: "\<forall>e \<in> set ys. \<not> overlaps t e"
  proof
    fix e assume e: "e \<in> set ys"
    then have "endIndex e \<le> startIndex y"
      using sep snoc by (auto simp: separated_def sorted_wrt_append)
    moreover have "startIndex y \<le> startIndex t" using bound snoc by simp
    moreover have "positive e" "startIndex e \<le> startIndex t" using e pos bound snoc by auto
    ultimately show "\<not> overlaps t e" using t by (simp add: overlaps_later)
  qed
  have y: "overlaps t y \<longleftrightarrow> startIndex t < endIndex y"
    using pos bound snoc t by (intro overlaps_later) auto
  show ?thesis
  proof (cases "overlaps t y")
    case True
    then have "list_ex (overlaps t) res" using snoc by (simp add: list_ex_iff)
    moreover have "findIndex (overlaps t) res = Some (length ys)"
      using ys True snoc by (simp add: findIndex_last)
    ultimately show ?thesis using True y snoc by (simp add: dedup_step_def)
  next
    case False
    then have "\<not> list_ex (overlaps t) res" using ys snoc by (auto simp: list_ex_iff)
    then show ?thesis using False y snoc by (simp add: dedup_step_def)
  qed
qed

lemma dedup_step_inv:
  assumes inv: "dedup_inv res" and t: "positive t"
    and bound: "\<forall>e \<in> set res. startIndex e \<le> startIndex t"
  shows "dedup_inv (dedup_step res t)"
    and "\<forall>e \<in> set (dedup_step res t). startIndex e \<le> startIndex t"
    and "set (dedup_step res t) \<subseteq> insert t (set res)"
proof -
  have sep: "separated res" and pos: "\<forall>e \<in> set res. positive e"
    using inv by (simp_all add: dedup_inv_def)
  note c = dedup_step_char [OF sep pos t bound]
  have before: "e \<in> set (butlast res) \<Longrightarrow> endIndex e \<le> startIndex t" for e
  proof -
    assume e: "e \<in> set (butlast res)"
    then have ne: "res \<noteq> []" by auto
    then have r: "res = butlast res @ [last res]" by simp
    have "endIndex e \<le> startIndex (last res)"
      using sep e by (subst (asm) r) (auto simp: separated_def sorted_wrt_append)
    moreover have "startIndex (last res) \<le> startIndex t" using bound ne by simp
    ultimately show ?thesis by simp
  qed
  have sepb: "separated (butlast res)"
    using sep by (cases res rule: rev_cases) (auto simp: separated_def sorted_wrt_append)
  have posb: "\<forall>e \<in> set (butlast res). positive e" using pos by (auto dest: in_set_butlastD)
  show "dedup_inv (dedup_step res t)"
  proof (cases "res = [] \<or> endIndex (last res) \<le> startIndex t")
    case True
    have "\<forall>e \<in> set res. endIndex e \<le> startIndex t"
    proof
      fix e assume e: "e \<in> set res"
      then have ne: "res \<noteq> []" by auto
      then have "e \<in> set (butlast res) \<or> e = last res"
        using e by (metis append_butlast_last_id in_set_conv_decomp_first rotate1.simps(2) set_ConsD set_rotate1)
      then show "endIndex e \<le> startIndex t" using before True ne by auto
    qed
    then show ?thesis using True c sep pos t
      by (auto simp: dedup_inv_def separated_def sorted_wrt_append)
  next
    case False
    then show ?thesis using c sep pos sepb posb before t
      by (auto simp: dedup_inv_def separated_def sorted_wrt_append)
  qed
  show "\<forall>e \<in> set (dedup_step res t). startIndex e \<le> startIndex t"
    using c bound by (auto dest: in_set_butlastD)
  show "set (dedup_step res t) \<subseteq> insert t (set res)"
    using c by (auto dest: in_set_butlastD)
qed

lemma fold_dedup_inv:
  assumes "dedup_inv res" "\<forall>t \<in> set ys. positive t" "sorted (map startIndex ys)"
    and "\<forall>e \<in> set res. \<forall>t \<in> set ys. startIndex e \<le> startIndex t"
  shows "dedup_inv (foldl dedup_step res ys) \<and> set (foldl dedup_step res ys) \<subseteq> set res \<union> set ys"
  using assms
proof (induction ys arbitrary: res)
  case Nil
  then show ?case by simp
next
  case (Cons y ys)
  have y: "positive y" and b: "\<forall>e \<in> set res. startIndex e \<le> startIndex y"
    using Cons.prems by auto
  note s = dedup_step_inv [OF Cons.prems(1) y b]
  have yle: "\<forall>t \<in> set ys. startIndex y \<le> startIndex t"
    using Cons.prems(3) by simp
  have "\<forall>e \<in> set (dedup_step res y). \<forall>t \<in> set ys. startIndex e \<le> startIndex t"
    using s(2) yle by (meson order_trans)
  then have "dedup_inv (foldl dedup_step (dedup_step res y) ys)
      \<and> set (foldl dedup_step (dedup_step res y) ys) \<subseteq> set (dedup_step res y) \<union> set ys"
    using Cons.IH [OF s(1)] Cons.prems by simp
  then show ?case using s(3) by auto
qed

lemma separated_no_overlap:
  assumes "separated ts" "a \<in> set ts" "b \<in> set ts" "a \<noteq> b"
  shows "\<not> spans_overlap a b"
proof -
  obtain i j where i: "i < length ts" "ts ! i = a" and j: "j < length ts" "ts ! j = b"
    using assms(2,3) by (auto simp: in_set_conv_nth)
  have "i \<noteq> j" using i j assms(4) by auto
  then consider "i < j" | "j < i" by linarith
  then show ?thesis
  proof cases
    case 1
    then have "endIndex a \<le> startIndex b"
      using assms(1) i j by (auto simp: separated_def sorted_wrt_iff_nth_less)
    then show ?thesis by (simp add: spans_overlap_def)
  next
    case 2
    then have "endIndex b \<le> startIndex a"
      using assms(1) i j by (auto simp: separated_def sorted_wrt_iff_nth_less)
    then show ?thesis by (simp add: spans_overlap_def)
  qed
qed

lemma separated_sorted:
  assumes "separated ts" "\<forall>e \<in> set ts. positive e"
  shows "sorted (map startIndex ts)"
  using assms
proof (induction ts)
  case Nil
  then show ?case by simp
next
  case (Cons a ts)
  have 1: "\<forall>b \<in> set ts. endIndex a \<le> startIndex b" and 2: "separated ts"
    using Cons.prems(1) by (simp_all add: separated_def)
  have 3: "startIndex a < endIndex a" using Cons.prems(2) by (simp add: positive_def)
  have "\<forall>b \<in> set ts. startIndex a \<le> startIndex b"
    using 1 3 by (meson le_trans less_imp_le_nat)
  moreover have "sorted (map startIndex ts)" using Cons.IH [OF 2] Cons.prems(2) by simp
  ultimately show ?case by simp
qed

lemma fold_dedup_keeps:
  assumes inv: "dedup_inv res" and pos: "\<forall>t \<in> set ys. positive t"
    and srt: "sorted (map startIndex ys)"
    and bound: "\<forall>e \<in> set res. \<forall>t \<in> set ys. startIndex e \<le> startIndex t"
    and t: "t \<in> set res \<union> set ys" and tp: "positive t"
    and best: "\<forall>w \<in> set res \<union> set ys. w \<noteq> t \<and> spans_overlap t w \<longrightarrow> confidence w < confidence t"
  shows "t \<in> set (foldl dedup_step res ys)"
  using inv pos srt bound t best
proof (induction ys arbitrary: res)
  case Nil
  then show ?case by simp
next
  case (Cons y ys)
  have y: "positive y" and b: "\<forall>e \<in> set res. startIndex e \<le> startIndex y"
    using Cons.prems by auto
  have sep: "separated res" and posr: "\<forall>e \<in> set res. positive e"
    using Cons.prems(1) by (simp_all add: dedup_inv_def)
  note s = dedup_step_inv [OF Cons.prems(1) y b]
  note c = dedup_step_char [OF sep posr y b]
  have yle: "\<forall>t \<in> set ys. startIndex y \<le> startIndex t"
    using Cons.prems(3) by simp
  have b': "\<forall>e \<in> set (dedup_step res y). \<forall>t \<in> set ys. startIndex e \<le> startIndex t"
    using s(2) yle by (meson order_trans)
  have best': "\<forall>w \<in> set (dedup_step res y) \<union> set ys.
      w \<noteq> t \<and> spans_overlap t w \<longrightarrow> confidence w < confidence t"
    using Cons.prems(6) s(3) by auto
  have "t \<in> set (dedup_step res y) \<union> set ys"
  proof (cases "res = [] \<or> endIndex (last res) \<le> startIndex y")
    case True
    then show ?thesis using c Cons.prems(5) by auto
  next
    case False
    then have ne: "res \<noteq> []" and ov: "startIndex y < endIndex (last res)" by auto
    let ?l = "last res"
    have l: "?l \<in> set res" using ne by simp
    have lov: "spans_overlap y ?l"
      using ov b l posr y by (auto simp: spans_overlap_def positive_def)
    show ?thesis
    proof (cases "confidence y > confidence ?l")
      case True
      then have step: "dedup_step res y = butlast res @ [y]" using c False by simp
      have "t \<noteq> ?l"
      proof
        assume "t = ?l"
        moreover have "y \<noteq> t" using True \<open>t = ?l\<close> by auto
        moreover have "spans_overlap t y" using lov \<open>t = ?l\<close> by (auto simp: spans_overlap_def)
        ultimately have "confidence y < confidence t" using Cons.prems(6) by auto
        then show False using True \<open>t = ?l\<close> by simp
      qed
      moreover have "set (butlast res @ [?l]) = set res"
        by (simp only: append_butlast_last_id [OF ne])
      then have "set res = set (butlast res) \<union> {?l}" by auto
      ultimately show ?thesis using step Cons.prems(5) by auto
    next
      case nb: False
      then have step: "dedup_step res y = res" using c False by simp
      show ?thesis
      proof (cases "t \<in> set res \<or> t \<in> set ys")
        case True
        then show ?thesis using step by auto
      next
        case False
        then have "t = y" using Cons.prems(5) by auto
        moreover have "?l \<noteq> t" using False l by auto
        moreover have "spans_overlap t ?l" using lov \<open>t = y\<close> by simp
        ultimately have "confidence ?l < confidence t" using Cons.prems(6) l by auto
        then show ?thesis using nb \<open>t = y\<close> by simp
      qed
    qed
  qed
  then show ?case
    using Cons.IH [OF s(1) _ _ b' _ best'] Cons.prems by simp
qed

lemma advances_refl: "advances s s"
  by (simp add: advances_def)

lemma advances_trans: "advances s s1 \<Longrightarrow> advances s1 s2 \<Longrightarrow> advances s s2"
  by (auto simp: advances_def)

lemma reachesI: "k s' = Some res \<Longrightarrow> advances s s' \<Longrightarrow> reaches k s res"
  unfolding reaches_def by blast

lemma reaches_refl: "k s = Some res \<Longrightarrow> reaches k s res"
  by (rule reachesI [OF _ advances_refl])

lemma reaches_trans:
  "advances s s1 \<Longrightarrow> reaches k s1 res \<Longrightarrow> reaches k s res"
  unfolding reaches_def by (blast intro: advances_trans)

lemma rep_reaches:
  assumes mb: "\<And>k s res. mb k s = Some res \<Longrightarrow> reaches k s res"
  shows "rep f mb mn mx k s = Some res \<Longrightarrow> reaches k s res"
proof (induction f arbitrary: mn mx s)
  case 0
  then show ?case
    by (auto split: if_splits intro: reaches_refl)
next
  case (Suc f)
  show ?case
  proof (cases "mx = Some 0")
    case True
    then have "k s = Some res" using Suc.prems by simp
    then show ?thesis by (rule reaches_refl)
  next
    case False
    let ?k' = "\<lambda>s'. if mn = 0 \<and> fst (snd s') = fst (snd s) then None
                     else rep f mb (mn - 1) (dec mx) k s'"
    show ?thesis
    proof (cases "mb ?k' s")
      case None
      then have "k s = Some res" using Suc.prems False by (simp split: if_splits)
      then show ?thesis by (rule reaches_refl)
    next
      case (Some r)
      then have "r = res" using Suc.prems False by simp
      then have "reaches ?k' s res" using mb Some by simp
      then obtain s1 where s1: "?k' s1 = Some res" "advances s s1"
        by (auto simp: reaches_def)
      then have "rep f mb (mn - 1) (dec mx) k s1 = Some res"
        by (simp split: if_splits)
      then have "reaches k s1 res" by (rule Suc.IH)
      then show ?thesis using s1(2) by (rule reaches_trans [rotated])
    qed
  qed
qed

lemma matcher_reaches:
  "matcher ic r k s = Some res \<Longrightarrow> reaches k s res"
proof (induction r arbitrary: k s res)
  case (Cls neg rs)
  obtain pw i rest caps where s: "s = (pw, i, rest, caps)" by (cases s) auto
  show ?case
  proof (cases rest)
    case Nil
    then show ?thesis using Cls s by simp
  next
    case (Cons c cs)
    then have "k (isWordChar c, Suc i, cs, caps) = Some res"
      using Cls s by (simp split: if_splits)
    moreover have "advances s (isWordChar c, Suc i, cs, caps)"
      using s Cons by (simp add: advances_def mpos_def mrest_def)
    ultimately show ?thesis by (rule reachesI)
  qed
next
  case Eps
  then show ?case by (auto intro: reaches_refl)
next
  case (Cat r1 r2)
  from Cat.prems have "matcher ic r1 (matcher ic r2 k) s = Some res" by simp
  then have "reaches (matcher ic r2 k) s res" by (rule Cat.IH(1))
  then obtain s1 where s1: "matcher ic r2 k s1 = Some res" "advances s s1"
    by (auto simp: reaches_def)
  then have "reaches k s1 res" using Cat.IH(2) by simp
  then show ?case using s1(2) by (rule reaches_trans [rotated])
next
  case (Alt r1 r2)
  then show ?case by (auto split: option.splits)
next
  case (Rep mn mx r)
  from Rep.prems have "rep (mn + length (fst (snd (snd s)))) (matcher ic r) mn mx k s = Some res"
    by simp
  then show ?case using Rep.IH by (rule rep_reaches [rotated])
next
  case (Grp n r)
  obtain pw i rest caps where s: "s = (pw, i, rest, caps)" by (cases s) auto
  let ?k' = "\<lambda>s'. case s' of (pw', j, rest', caps') \<Rightarrow> k (pw', j, rest', (n, i, j) # caps')"
  have "matcher ic r ?k' s = Some res" using Grp.prems s by simp
  then have "reaches ?k' s res" by (rule Grp.IH)
  then obtain s1 where s1: "?k' s1 = Some res" "advances s s1"
    by (auto simp: reaches_def)
  obtain pw' j rest' caps' where s1': "s1 = (pw', j, rest', caps')" by (cases s1) auto
  have "k (pw', j, rest', (n, i, j) # caps') = Some res" using s1(1) s1' by simp
  moreover have "advances s (pw', j, rest', (n, i, j) # caps')"
    using s1(2) s1' by (simp add: advances_def mpos_def mrest_def)
  ultimately show ?case by (rule reachesI)
next
  case WordB
  then show ?case
    by (cases s) (auto split: if_splits intro: reaches_refl)
next
  case (NLook r)
  then show ?case
    by (auto split: option.splits intro: reaches_refl)
qed

lemma matcher_Some_bounds:
  assumes "matcher ic r Some (pw, i, rest, caps) = Some (pw', j, rest', caps')"
  shows "i \<le> j \<and> j \<le> i + length rest"
proof -
  have "reaches Some (pw, i, rest, caps) (pw', j, rest', caps')"
    using assms by (rule matcher_reaches)
  then show ?thesis by (auto simp: reaches_def advances_def mpos_def mrest_def)
qed

lemma search_bounds:
  "search ic r pw i rest = Some mt \<Longrightarrow>
   i \<le> m_index mt \<and> m_index mt \<le> m_end mt \<and> m_end mt \<le> i + length rest"
proof (induction rest arbitrary: pw i)
  case Nil
  then show ?case
    by (auto split: option.splits dest!: matcher_Some_bounds)
next
  case (Cons c cs)
  show ?case
  proof (cases "matcher ic r Some (pw, i, c # cs, [])")
    case None
    then have "search ic r (isWordChar c) (Suc i) cs = Some mt" using Cons.prems by simp
    then show ?thesis using Cons.IH by fastforce
  next
    case (Some res)
    obtain pw' j rest' caps where res: "res = (pw', j, rest', caps)" by (cases res) auto
    then have "mt = \<lparr>m_index = i, m_end = j, m_caps = caps\<rparr>" using Cons.prems Some by simp
    then show ?thesis using matcher_Some_bounds [of ic r pw i "c # cs" "[]" pw' j rest' caps] Some res
      by simp
  qed
qed

lemma search_skip:
  assumes "search ic r pw i (c # cs) = Some mt" "m_index mt \<noteq> i"
  shows "search ic r (isWordChar c) (Suc i) cs = Some mt"
  using assms by (auto split: option.splits)

lemma exec_bounds:
  assumes "exec re str lastIndex = Some mt" "re_global re"
  shows "lastIndex \<le> m_index mt \<and> m_index mt \<le> m_end mt \<and> m_end mt \<le> length str"
proof -
  have li: "lastIndex \<le> length str"
    using assms by (auto simp: exec_def Let_def split: if_splits)
  have "search (re_ignoreCase re) (re_source re)
          (lastIndex > 0 \<and> isWordChar (of_char (str ! (lastIndex - 1)))) lastIndex
          (drop lastIndex (map of_char str)) = Some mt"
    using assms li by (simp add: exec_def Let_def)
  from search_bounds [OF this] li show ?thesis by simp
qed

lemma exec_skip:
  assumes e: "exec re str lastIndex = Some mt" and g: "re_global re"
    and far: "m_index mt \<noteq> lastIndex"
  shows "exec re str (Suc lastIndex) = Some mt"
proof -
  have b: "lastIndex \<le> m_index mt" "m_index mt \<le> length str"
    using exec_bounds [OF e g] by auto
  then have lt: "lastIndex < length str" using far by simp
  let ?codes = "map of_char str :: nat list"
  have d: "drop lastIndex ?codes = of_char (str ! lastIndex) # drop (Suc lastIndex) ?codes"
    using lt by (simp add: Cons_nth_drop_Suc [symmetric])
  have "search (re_ignoreCase re) (re_source re)
          (lastIndex > 0 \<and> isWordChar (of_char (str ! (lastIndex - 1)))) lastIndex
          (of_char (str ! lastIndex) # drop (Suc lastIndex) ?codes) = Some mt"
    using e g lt d by (simp add: exec_def Let_def)
  from search_skip [OF this far]
  show ?thesis using g lt by (simp add: exec_def Let_def)
qed

lemma exec_stable:
  assumes e: "exec re str lastIndex = Some mt" and g: "re_global re"
  shows "exec re str (m_index mt) = Some mt"
proof -
  have "lastIndex \<le> m_index mt" using exec_bounds [OF e g] by simp
  then show ?thesis using e
  proof (induction "m_index mt - lastIndex" arbitrary: lastIndex)
    case 0
    then show ?case by simp
  next
    case (Suc d)
    then have "m_index mt \<noteq> lastIndex" by simp
    then have "exec re str (Suc lastIndex) = Some mt"
      using exec_skip [OF Suc.prems(2) g] by simp
    moreover have "d = m_index mt - Suc lastIndex" "Suc lastIndex \<le> m_index mt"
      using Suc.hyps(2) Suc.prems(1) by simp_all
    ultimately show ?case using Suc.hyps(1) by simp
  qed
qed

lemma execAll_Some_Cons:
  assumes "execAll re str lastIndex = Some (mt # ms)"
  shows "exec re str lastIndex = Some mt \<and> re_global re \<and> lastIndex < m_end mt
         \<and> execAll re str (m_end mt) = Some ms"
  using assms
  by (subst (asm) execAll.simps) (auto split: option.splits if_splits)

lemma execAll_positive:
  "execAll re str lastIndex = Some ms \<Longrightarrow>
   \<forall>mt \<in> set ms. m_index mt < m_end mt \<and> m_end mt \<le> length str"
proof (induction ms arbitrary: lastIndex)
  case Nil
  then show ?case by simp
next
  case (Cons mt ms)
  note c = execAll_Some_Cons [OF Cons.prems]
  then have e: "exec re str lastIndex = Some mt" and g: "re_global re"
    and lt: "lastIndex < m_end mt" and rest: "execAll re str (m_end mt) = Some ms"
    by simp_all
  note b = exec_bounds [OF e g]
  have "m_index mt < m_end mt"
  proof (rule ccontr)
    assume "\<not> m_index mt < m_end mt"
    then have eq: "m_end mt = m_index mt" using b by simp
    have "exec re str (m_end mt) = Some mt" using exec_stable [OF e g] eq by simp
    then have "execAll re str (m_end mt) = None"
      by (subst execAll.simps) simp
    then show False using rest by simp
  qed
  then show ?case using b Cons.IH [OF rest] by simp
qed

lemma match_text_length:
  assumes "m_index mt < m_end mt" "m_end mt \<le> length str"
  shows "length (match_text str mt) = m_end mt - m_index mt"
  using assms by (simp add: match_text_def substring_def)

lemma pattern_token_positive:
  assumes "pattern_token conf cfg text pt name mt = Some t"
    and "m_index mt < m_end mt" "m_end mt \<le> length pt"
  shows "positive t"
proof -
  let ?matched = "case match_group pt mt 1 of
                  Some g \<Rightarrow> if g \<noteq> [] then g else match_text pt mt
                | None \<Rightarrow> match_text pt mt"
  have "match_text pt mt \<noteq> []"
    using match_text_length [OF assms(2,3)] assms(2) by auto
  then have "?matched \<noteq> []" by (simp split: option.splits)
  then have "0 < length ?matched" by simp
  moreover have "startIndex t = m_index mt" "endIndex t = m_index mt + length ?matched"
    using assms(1) by (auto simp: pattern_token_def Let_def split: if_splits)
  ultimately show ?thesis by (simp add: positive_def)
qed

lemma custom_token_positive:
  assumes "custom_token cfg text pt mt = Some t"
    and "m_index mt < m_end mt" "m_end mt \<le> length pt"
  shows "positive t"
proof -
  have "0 < length (match_text pt mt)"
    using match_text_length [OF assms(2,3)] assms(2) by simp
  moreover have "startIndex t = m_index mt" "endIndex t = m_index mt + length (match_text pt mt)"
    using assms(1) by (auto simp: custom_token_def Let_def split: if_splits)
  ultimately show ?thesis by (simp add: positive_def)
qed

lemma detect_patterns_positive:
  "detect_patterns conf cfg text pt names = Some ts \<Longrightarrow> \<forall>t \<in> set ts. positive t"
proof (induction names arbitrary: ts)
  case Nil
  then show ?case by simp
next
  case (Cons name names)
  show ?case
  proof (cases "TOKEN_PATTERNS name")
    case None
    then show ?thesis using Cons by (simp split: if_splits)
  next
    case (Some pattern)
    then obtain ms ts' where ms: "execAll pattern pt 0 = Some ms"
      and ts': "detect_patterns conf cfg text pt names = Some ts'"
      and ts: "ts = List.map_filter (pattern_token conf cfg text pt name) ms @ ts'"
      using Cons.prems by (auto split: option.splits)
    have "\<forall>t \<in> set (List.map_filter (pattern_token conf cfg text pt name) ms). positive t"
      using execAll_positive [OF ms]
      by (auto simp: List.map_filter_def intro: pattern_token_positive)
    then show ?thesis using Cons.IH [OF ts'] ts by auto
  qed
qed

lemma detect_custom_positive:
  "detect_custom cfg text pt ps = Some ts \<Longrightarrow> \<forall>t \<in> set ts. positive t"
proof (induction ps arbitrary: ts)
  case Nil
  then show ?case by simp
next
  case (Cons pattern ps)
  obtain ms ts' where ms: "execAll pattern pt 0 = Some ms"
    and ts': "detect_custom cfg text pt ps = Some ts'"
    and ts: "ts = List.map_filter (custom_token cfg text pt) ms @ ts'"
    using Cons.prems by (auto split: option.splits)
  have "\<forall>t \<in> set (List.map_filter (custom_token cfg text pt) ms). positive t"
    using execAll_positive [OF ms]
    by (auto simp: List.map_filter_def intro: custom_token_positive)
  then show ?case using Cons.IH [OF ts'] ts by auto
qed

lemma detected_positive:
  assumes "detected conf cfg text = Some cands"
  shows "\<forall>t \<in> set cands. positive t"
  using assms detect_patterns_positive detect_custom_positive
  unfolding detected_def Let_def
  by (fastforce split: option.splits)

lemma dedup_inv_Nil: "dedup_inv []"
  by (simp add: dedup_inv_def separated_def)

lemma accepted_after_inv:
  assumes "\<forall>t \<in> set pre. positive t" "sorted (map startIndex pre)"
  shows "dedup_inv (accepted_after pre)" and "set (accepted_after pre) \<subseteq> set pre"
  using fold_dedup_inv [OF dedup_inv_Nil assms] by (simp_all add: accepted_after_def)

lemma accepted_after_snoc: "accepted_after (pre @ [t]) = dedup_step (accepted_after pre) t"
  by (simp add: accepted_after_def)

lemma walk_step:
  assumes pos: "\<forall>t \<in> set ts. positive t" and srt: "sorted (map startIndex ts)"
    and split: "ts = pre @ t # post"
  shows "accepted_after (pre @ [t]) =
           (if \<not> (\<exists>e \<in> set (accepted_after pre). spans_overlap t e)
            then accepted_after pre @ [t]
            else if confidence t > confidence (last (accepted_after pre))
            then butlast (accepted_after pre) @ [t]
            else accepted_after pre)"
    and "\<forall>e \<in> set (accepted_after pre). spans_overlap t e \<longrightarrow> e = last (accepted_after pre)"
proof -
  let ?acc = "accepted_after pre"
  have ppos: "\<forall>t \<in> set pre. positive t" and tpos: "positive t" using pos split by auto
  have psrt: "sorted (map startIndex pre)" and ple: "\<forall>e \<in> set pre. startIndex e \<le> startIndex t"
    using srt split by (auto simp: sorted_append)
  note inv = accepted_after_inv [OF ppos psrt]
  have sep: "separated ?acc" and apos: "\<forall>e \<in> set ?acc. positive e"
    using inv(1) by (simp_all add: dedup_inv_def)
  have bound: "\<forall>e \<in> set ?acc. startIndex e \<le> startIndex t" using inv(2) ple by auto
  have only_last: "e \<in> set ?acc \<Longrightarrow> spans_overlap t e \<Longrightarrow> e = last ?acc" for e
  proof (rule ccontr)
    assume e: "e \<in> set ?acc" and ov: "spans_overlap t e" and ne: "e \<noteq> last ?acc"
    then have nn: "?acc \<noteq> []" by auto
    have "set (butlast ?acc @ [last ?acc]) = set ?acc"
      by (simp only: append_butlast_last_id [OF nn])
    then have eb: "e \<in> set (butlast ?acc)" using e ne by auto
    have "separated (butlast ?acc @ [last ?acc])"
      using sep by (simp only: append_butlast_last_id [OF nn])
    then have "endIndex e \<le> startIndex (last ?acc)"
      using eb by (auto simp: separated_def sorted_wrt_append)
    moreover have "startIndex (last ?acc) \<le> startIndex t" using bound nn by simp
    ultimately show False using ov by (simp add: spans_overlap_def)
  qed
  then show "\<forall>e \<in> set ?acc. spans_overlap t e \<longrightarrow> e = last ?acc" by blast
  have iff: "(\<exists>e \<in> set ?acc. spans_overlap t e) \<longleftrightarrow>
      \<not> (?acc = [] \<or> endIndex (last ?acc) \<le> startIndex t)"
  proof
    assume "\<exists>e \<in> set ?acc. spans_overlap t e"
    then obtain e where e: "e \<in> set ?acc" "spans_overlap t e" by blast
    then have "e = last ?acc" by (rule only_last)
    then show "\<not> (?acc = [] \<or> endIndex (last ?acc) \<le> startIndex t)"
      using e by (auto simp: spans_overlap_def)
  next
    assume a: "\<not> (?acc = [] \<or> endIndex (last ?acc) \<le> startIndex t)"
    then have l: "last ?acc \<in> set ?acc" by simp
    then have "startIndex (last ?acc) \<le> startIndex t" using bound by simp
    then have "spans_overlap t (last ?acc)"
      using a tpos by (auto simp: spans_overlap_def positive_def)
    then show "\<exists>e \<in> set ?acc. spans_overlap t e" using l by blast
  qed
  show "accepted_after (pre @ [t]) =
           (if \<not> (\<exists>e \<in> set ?acc. spans_overlap t e) then ?acc @ [t]
            else if confidence t > confidence (last ?acc) then butlast ?acc @ [t]
            else ?acc)"
    unfolding accepted_after_snoc dedup_step_char [OF sep apos tpos bound] iff by simp
qed

lemma deduplicateTokens_props:
  assumes pos: "\<forall>t \<in> set cands. positive t"
  shows "sorted (map startIndex (deduplicateTokens cands))"
    and "separated (deduplicateTokens cands)"
    and "set (deduplicateTokens cands) \<subseteq> set cands"
    and "\<forall>t \<in> set cands.
           (\<forall>w \<in> set cands. w \<noteq> t \<and> spans_overlap t w \<longrightarrow> confidence w < confidence t)
           \<longrightarrow> t \<in> set (deduplicateTokens cands)"
proof -
  let ?ts = "sort_key startIndex cands"
  have spos: "\<forall>t \<in> set ?ts. positive t" using pos by simp
  have srt: "sorted (map startIndex ?ts)" by (rule sorted_sort_key)
  have d: "deduplicateTokens cands = accepted_after ?ts"
    by (simp add: deduplicateTokens_def accepted_after_def)
  note inv = accepted_after_inv [OF spos srt]
  show "separated (deduplicateTokens cands)" using inv(1) d by (simp add: dedup_inv_def)
  then show "sorted (map startIndex (deduplicateTokens cands))"
    using inv(1) d by (intro separated_sorted) (simp_all add: dedup_inv_def)
  show "set (deduplicateTokens cands) \<subseteq> set cands" using inv(2) d by simp
  show "\<forall>t \<in> set cands.
           (\<forall>w \<in> set cands. w \<noteq> t \<and> spans_overlap t w \<longrightarrow> confidence w < confidence t)
           \<longrightarrow> t \<in> set (deduplicateTokens cands)"
  proof (intro ballI impI)
    fix t
    assume t: "t \<in> set cands"
      and best: "\<forall>w \<in> set cands. w \<noteq> t \<and> spans_overlap t w \<longrightarrow> confidence w < confidence t"
    have "t \<in> set (foldl dedup_step [] ?ts)"
      using t best pos
      by (intro fold_dedup_keeps [OF dedup_inv_Nil spos srt]) auto
    then show "t \<in> set (deduplicateTokens cands)" by (simp add: deduplicateTokens_def)
  qed
qed

subsection \<open>The match loops end\<close>

lemma movesI: "k s' = Some res \<Longrightarrow> mpos s < mpos s' \<Longrightarrow> moves k s res"
  unfolding moves_def by blast

lemma moves_then_reaches: "mpos s < mpos s1 \<Longrightarrow> reaches k s1 res \<Longrightarrow> moves k s res"
  unfolding moves_def reaches_def advances_def by (meson less_le_trans)

lemma reaches_then_moves: "advances s s1 \<Longrightarrow> moves k s1 res \<Longrightarrow> moves k s res"
  unfolding moves_def advances_def by (meson le_less_trans)

lemma matcher_moves:
  "\<not> nullable r \<Longrightarrow> matcher ic r k s = Some res \<Longrightarrow> moves k s res"
proof (induction r arbitrary: k s res)
  case (Cls neg rs)
  obtain pw i rest caps where s: "s = (pw, i, rest, caps)" by (cases s) auto
  show ?case
  proof (cases rest)
    case Nil
    then show ?thesis using Cls s by simp
  next
    case (Cons c cs)
    then have "k (isWordChar c, Suc i, cs, caps) = Some res"
      using Cls s by (simp split: if_splits)
    moreover have "mpos s < mpos (isWordChar c, Suc i, cs, caps)"
      using s by (simp add: mpos_def)
    ultimately show ?thesis by (rule movesI)
  qed
next
  case Eps
  then show ?case by simp
next
  case (Cat r1 r2)
  from Cat.prems have m: "matcher ic r1 (matcher ic r2 k) s = Some res" by simp
  show ?case
  proof (cases "nullable r1")
    case False
    from Cat.IH(1) [OF False m] obtain s1 where
      s1: "matcher ic r2 k s1 = Some res" "mpos s < mpos s1" by (auto simp: moves_def)
    from s1(2) matcher_reaches [OF s1(1)] show ?thesis by (rule moves_then_reaches)
  next
    case True
    then have n2: "\<not> nullable r2" using Cat.prems by simp
    from matcher_reaches [OF m] obtain s1 where
      s1: "matcher ic r2 k s1 = Some res" "advances s s1" by (auto simp: reaches_def)
    from s1(2) Cat.IH(2) [OF n2 s1(1)] show ?thesis by (rule reaches_then_moves)
  qed
next
  case (Alt r1 r2)
  then show ?case by (auto split: option.splits)
next
  case (Rep mn mx r)
  from Rep.prems have mn: "mn \<noteq> 0" and mx: "mx \<noteq> Some 0" and nr: "\<not> nullable r" by simp_all
  let ?f = "mn + length (fst (snd (snd s)))"
  from Rep.prems have r: "rep ?f (matcher ic r) mn mx k s = Some res" by simp
  obtain f where f: "?f = Suc f" using mn by (cases ?f) auto
  let ?k' = "\<lambda>s'. if mn = 0 \<and> fst (snd s') = fst (snd s) then None
                   else rep f (matcher ic r) (mn - 1) (dec mx) k s'"
  from r mx mn have "matcher ic r ?k' s = Some res"
    unfolding f by (auto split: option.splits)
  from Rep.IH [OF nr this] obtain s1 where s1: "?k' s1 = Some res" "mpos s < mpos s1"
    by (auto simp: moves_def)
  then have "rep f (matcher ic r) (mn - 1) (dec mx) k s1 = Some res"
    by (simp split: if_splits)
  then have "reaches k s1 res"
    by (rule rep_reaches [rotated]) (rule matcher_reaches)
  with s1(2) show ?case by (rule moves_then_reaches)
next
  case (Grp n r)
  obtain pw i rest caps where s: "s = (pw, i, rest, caps)" by (cases s) auto
  let ?k' = "\<lambda>s'. case s' of (pw', j, rest', caps') \<Rightarrow> k (pw', j, rest', (n, i, j) # caps')"
  have "matcher ic r ?k' s = Some res" using Grp.prems s by simp
  moreover have "\<not> nullable r" using Grp.prems by simp
  ultimately have "moves ?k' s res" using Grp.IH by blast
  then obtain s1 where s1: "?k' s1 = Some res" "mpos s < mpos s1"
    by (auto simp: moves_def)
  obtain pw' j rest' caps' where s1': "s1 = (pw', j, rest', caps')" by (cases s1) auto
  have "k (pw', j, rest', (n, i, j) # caps') = Some res" using s1(1) s1' by simp
  moreover have "mpos s < mpos (pw', j, rest', (n, i, j) # caps')"
    using s1(2) s1' by (simp add: mpos_def)
  ultimately show ?case by (rule movesI)
next
  case WordB
  then show ?case by simp
next
  case (NLook r)
  then show ?case by simp
qed

lemma matcher_Some_moves:
  assumes "\<not> nullable r" "matcher ic r Some (pw, i, rest, caps) = Some (pw', j, rest', caps')"
  shows "i < j"
  using matcher_moves [OF assms] by (auto simp: moves_def mpos_def)

lemma search_moves:
  "\<not> nullable r \<Longrightarrow> search ic r pw i rest = Some mt \<Longrightarrow> m_index mt < m_end mt"
proof (induction rest arbitrary: pw i)
  case Nil
  then show ?case
    by (auto split: option.splits dest!: matcher_Some_moves)
next
  case (Cons c cs)
  show ?case
  proof (cases "matcher ic r Some (pw, i, c # cs, [])")
    case None
    then have "search ic r (isWordChar c) (Suc i) cs = Some mt" using Cons.prems by simp
    then show ?thesis using Cons.IH Cons.prems(1) by blast
  next
    case (Some res)
    obtain pw' j rest' caps where res: "res = (pw', j, rest', caps)" by (cases res) auto
    then have mt: "mt = \<lparr>m_index = i, m_end = j, m_caps = caps\<rparr>" using Cons.prems Some by simp
    from matcher_Some_moves [OF Cons.prems(1) Some [unfolded res]] have "i < j" .
    then show ?thesis using mt by simp
  qed
qed

lemma exec_moves:
  assumes "exec re str lastIndex = Some mt" "terminating re"
  shows "lastIndex < m_end mt"
proof -
  have g: "re_global re" and n: "\<not> nullable (re_source re)"
    using assms(2) by (simp_all add: terminating_def)
  have li: "lastIndex \<le> length str"
    using assms g by (auto simp: exec_def Let_def split: if_splits)
  have "search (re_ignoreCase re) (re_source re)
          (lastIndex > 0 \<and> isWordChar (of_char (str ! (lastIndex - 1)))) lastIndex
          (drop lastIndex (map of_char str)) = Some mt"
    using assms g li by (simp add: exec_def Let_def)
  from search_moves [OF n this] exec_bounds [OF assms(1) g] show ?thesis by simp
qed

lemma execAll_total:
  "terminating re \<Longrightarrow> \<exists>ms. execAll re str lastIndex = Some ms"
proof (induction re str lastIndex rule: execAll.induct)
  case (1 re str lastIndex)
  show ?case
  proof (cases "exec re str lastIndex")
    case None
    then show ?thesis by (subst execAll.simps) simp
  next
    case (Some mt)
    have g: "re_global re" using "1.prems" by (simp add: terminating_def)
    have lt: "lastIndex < m_end mt" using exec_moves [OF Some "1.prems"] .
    from "1.IH" [OF Some _ "1.prems"] g lt obtain ms where "execAll re str (m_end mt) = Some ms"
      by auto
    then show ?thesis using Some g lt by (subst execAll.simps) simp
  qed
qed

lemma catalogue_terminating:
  "TOKEN_PATTERNS name = Some re \<Longrightarrow> terminating re"
proof -
  have "list_all terminating
     [gi API_KEY, gi ACCESS_TOKEN, gi SECRET_KEY, gi BEARER_TOKEN, gi JWT_TOKEN, gi PASSWORD,
      gi DATABASE_URL, gi AWS_ACCESS_KEY, gi AWS_SECRET_KEY, gi AZURE_CLIENT_SECRET, gi EMAIL,
      gi PHONE, gi SSN, gi CREDIT_CARD, gi PRIVATE_IP, gi UUID, gi HEX_TOKEN, gi BASE64_TOKEN]"
    by code_simp
  then show "TOKEN_PATTERNS name = Some re \<Longrightarrow> terminating re"
    by (auto simp: TOKEN_PATTERNS_def split: if_splits)
qed

lemma detect_patterns_total:
  "list_all (\<lambda>n. n \<notin> set inherited_names) names
     \<Longrightarrow> \<exists>d. detect_patterns conf cfg text pt names = Some d"
proof (induction names)
  case Nil
  then show ?case by simp
next
  case (Cons name names)
  then obtain d where d: "detect_patterns conf cfg text pt names = Some d" by auto
  show ?case
  proof (cases "TOKEN_PATTERNS name")
    case None
    then show ?thesis using d Cons.prems by simp
  next
    case (Some re)
    from execAll_total [OF catalogue_terminating [OF Some], of pt 0]
    obtain ms where "execAll re pt 0 = Some ms" by blast
    then show ?thesis using Some d by simp
  qed
qed

lemma detect_custom_total:
  "list_all terminating ps \<Longrightarrow> \<exists>d. detect_custom cfg text pt ps = Some d"
proof (induction ps)
  case Nil
  then show ?case by simp
next
  case (Cons re ps)
  then obtain d where d: "detect_custom cfg text pt ps = Some d" by auto
  from execAll_total [of re pt 0] Cons.prems obtain ms where "execAll re pt 0 = Some ms" by auto
  then show ?case using d by simp
qed

lemma detected_total:
  assumes "list_all (\<lambda>n. n \<notin> set inherited_names) (patterns cfg)"
    and "list_all terminating (customPatterns cfg)"
  shows "\<exists>cands. detected conf cfg text = Some cands"
proof -
  let ?pt = "if caseSensitive cfg then text else toLowerCase text"
  obtain d1 where d1: "detect_patterns conf cfg text ?pt (patterns cfg) = Some d1"
    using detect_patterns_total [OF assms(1)] by blast
  obtain d2 where d2: "detect_custom cfg text ?pt (customPatterns cfg) = Some d2"
    using detect_custom_total [OF assms(2)] by blast
  show ?thesis using d1 d2 by (simp add: detected_def Let_def)
qed

text \<open>
  Claim C4, with the overlaps resolved the way the code resolves them. With catalogue
  patterns, and custom patterns that carry the \<^verbatim>\<open>g\<close> flag and match no empty text, the
  detection loops of \<^verbatim>\<open>detectTokens\<close> end on every text. Whenever they end, with the
  candidates \<open>cands\<close>, the function returns \<^verbatim>\<open>deduplicateTokens\<close> of them, and that
  sequence is sorted by start index, each span ends before the next one starts, and no
  two different tokens of it overlap. It holds candidates only. Overlaps are resolved
  in one walk over the candidates in order of start index, each candidate \<open>t\<close> against
  the spans accepted so far: it can overlap no accepted span but the last one; if it
  overlaps none it is appended; if it overlaps the last accepted span, the one of the
  two with the higher confidence stays in that place and the other is dropped (the
  accepted one stays on a tie). As a consequence a candidate whose confidence is higher
  than that of every candidate it overlaps is kept; in particular every candidate that
  overlaps no other candidate is kept.
\<close>

theorem detectTokens_sorted_nonoverlapping:
  "(list_all (\<lambda>n. n \<notin> set inherited_names) (patterns cfg)
      \<and> list_all terminating (customPatterns cfg)
      \<longrightarrow> (\<exists>cands. detected conf cfg text = Some cands))
   \<and> (\<forall>cands. detected conf cfg text = Some cands \<longrightarrow>
    detectTokens conf cfg text = Some (deduplicateTokens cands)
    \<and> sorted (map startIndex (deduplicateTokens cands))
    \<and> sorted_wrt (\<lambda>a b. endIndex a \<le> startIndex b) (deduplicateTokens cands)
    \<and> (\<forall>a \<in> set (deduplicateTokens cands). \<forall>b \<in> set (deduplicateTokens cands).
          a \<noteq> b \<longrightarrow> \<not> spans_overlap a b)
    \<and> set (deduplicateTokens cands) \<subseteq> set cands
    \<and> (\<forall>t \<in> set cands.
          (\<forall>w \<in> set cands. w \<noteq> t \<and> spans_overlap t w \<longrightarrow> confidence w < confidence t)
          \<longrightarrow> t \<in> set (deduplicateTokens cands))
    \<and> (\<forall>pre t post. sort_key startIndex cands = pre @ t # post \<longrightarrow>
          accepted_after (pre @ [t]) =
            (if \<not> (\<exists>e \<in> set (accepted_after pre). spans_overlap t e)
             then accepted_after pre @ [t]
             else if confidence t > confidence (last (accepted_after pre))
             then butlast (accepted_after pre) @ [t]
             else accepted_after pre)
          \<and> (\<forall>e \<in> set (accepted_after pre). spans_overlap t e \<longrightarrow> e = last (accepted_after pre)))
    \<and> deduplicateTokens cands = accepted_after (sort_key startIndex cands))"
  (is "?total \<and> (\<forall>cands. ?D cands \<longrightarrow> ?C cands)")
proof -
  have c: "?C cands" if assms: "?D cands" for cands
  proof -
  have pos: "\<forall>t \<in> set cands. positive t" using assms by (rule detected_positive)
  note p = deduplicateTokens_props [OF pos]
  have spos: "\<forall>t \<in> set (sort_key startIndex cands). positive t" using pos by simp
  have srt: "sorted (map startIndex (sort_key startIndex cands))" by (rule sorted_sort_key)
  have 1: "detectTokens conf cfg text = Some (deduplicateTokens cands)"
    using assms by (simp add: detectTokens_def)
  have 3: "sorted_wrt (\<lambda>a b. endIndex a \<le> startIndex b) (deduplicateTokens cands)"
    using p(2) by (simp add: separated_def)
  have 4: "\<forall>a \<in> set (deduplicateTokens cands). \<forall>b \<in> set (deduplicateTokens cands).
          a \<noteq> b \<longrightarrow> \<not> spans_overlap a b"
    using separated_no_overlap [OF p(2)] by blast
  have 7: "\<forall>pre t post. sort_key startIndex cands = pre @ t # post \<longrightarrow>
          accepted_after (pre @ [t]) =
            (if \<not> (\<exists>e \<in> set (accepted_after pre). spans_overlap t e)
             then accepted_after pre @ [t]
             else if confidence t > confidence (last (accepted_after pre))
             then butlast (accepted_after pre) @ [t]
             else accepted_after pre)
          \<and> (\<forall>e \<in> set (accepted_after pre). spans_overlap t e \<longrightarrow> e = last (accepted_after pre))"
    using walk_step [OF spos srt] by blast
  have 8: "deduplicateTokens cands = accepted_after (sort_key startIndex cands)"
    by (simp add: deduplicateTokens_def accepted_after_def)
  show ?thesis using 1 p(1) 3 4 p(3) p(4) 7 8 by (intro conjI)
  qed
  have t: ?total using detected_total by blast
  from t c show ?thesis by blast
qed

theorem detectTokens_sorted_nonoverlapping_witness:
  "detected (\<lambda>t v. if t = ''PHONE'' then 7 / 10 else 19 / 20) DEFAULT_DETECTION_CONFIG
       ''API key: sk-1234567890abcdef, email: user@example.com''
     = Some
        [\<lparr>tok_value = ''key: sk-1234567890a'', tok_type = ''API_KEY'', startIndex = 4,
          endIndex = 23, confidence = 19 / 20\<rparr>,
         \<lparr>tok_value = ''user@example.com'', tok_type = ''EMAIL'', startIndex = 37,
          endIndex = 53, confidence = 19 / 20\<rparr>,
         \<lparr>tok_value = ''1234567890'', tok_type = ''PHONE'', startIndex = 12,
          endIndex = 22, confidence = 7 / 10\<rparr>]
   \<and> detectTokens (\<lambda>t v. if t = ''PHONE'' then 7 / 10 else 19 / 20) DEFAULT_DETECTION_CONFIG
       ''API key: sk-1234567890abcdef, email: user@example.com''
     = Some
        [\<lparr>tok_value = ''key: sk-1234567890a'', tok_type = ''API_KEY'', startIndex = 4,
          endIndex = 23, confidence = 19 / 20\<rparr>,
         \<lparr>tok_value = ''user@example.com'', tok_type = ''EMAIL'', startIndex = 37,
          endIndex = 53, confidence = 19 / 20\<rparr>]
   \<and> sorted (map startIndex
        [\<lparr>tok_value = ''key: sk-1234567890a'', tok_type = ''API_KEY'', startIndex = 4,
          endIndex = 23, confidence = 19 / 20\<rparr>,
         \<lparr>tok_value = ''user@example.com'', tok_type = ''EMAIL'', startIndex = 37,
          endIndex = 53, confidence = 19 / 20\<rparr>])"
proof -
  let ?conf = "\<lambda>(t :: string) (v :: string). if t = ''PHONE'' then (7 / 10 :: real) else 19 / 20"
  let ?text = "''API key: sk-1234567890abcdef, email: user@example.com''"
  have d: "detected ?conf DEFAULT_DETECTION_CONFIG ?text = Some
        [\<lparr>tok_value = ''key: sk-1234567890a'', tok_type = ''API_KEY'', startIndex = 4,
          endIndex = 23, confidence = 19 / 20\<rparr>,
         \<lparr>tok_value = ''user@example.com'', tok_type = ''EMAIL'', startIndex = 37,
          endIndex = 53, confidence = 19 / 20\<rparr>,
         \<lparr>tok_value = ''1234567890'', tok_type = ''PHONE'', startIndex = 12,
          endIndex = 22, confidence = 7 / 10\<rparr>]"
    by (simp add: detected_prompt)
  have e: "deduplicateTokens
        [\<lparr>tok_value = ''key: sk-1234567890a'', tok_type = ''API_KEY'', startIndex = 4,
          endIndex = 23, confidence = 19 / 20\<rparr>,
         \<lparr>tok_value = ''user@example.com'', tok_type = ''EMAIL'', startIndex = 37,
          endIndex = 53, confidence = 19 / 20\<rparr>,
         \<lparr>tok_value = ''1234567890'', tok_type = ''PHONE'', startIndex = 12,
          endIndex = 22, confidence = (7 / 10 :: real)\<rparr>]
      = [\<lparr>tok_value = ''key: sk-1234567890a'', tok_type = ''API_KEY'', startIndex = 4,
          endIndex = 23, confidence = 19 / 20\<rparr>,
         \<lparr>tok_value = ''user@example.com'', tok_type = ''EMAIL'', startIndex = 37,
          endIndex = 53, confidence = 19 / 20\<rparr>]"
    by (simp add: dedup_eval)
  note T = detectTokens_sorted_nonoverlapping [THEN conjunct2, rule_format, OF d]
  note a = T [THEN conjunct1]
  note b = T [THEN conjunct2, THEN conjunct1]
  show ?thesis
    by (intro conjI d a [unfolded e] b [unfolded e])
qed

lemma execAll_overlap:
  "execAll (gi API_KEY) ''pwd=abcdefgh@example.org,5555555555'' 0 = Some []"
  "execAll (gi ACCESS_TOKEN) ''pwd=abcdefgh@example.org,5555555555'' 0 = Some []"
  "execAll (gi SECRET_KEY) ''pwd=abcdefgh@example.org,5555555555'' 0 = Some []"
  "execAll (gi BEARER_TOKEN) ''pwd=abcdefgh@example.org,5555555555'' 0 = Some []"
  "execAll (gi JWT_TOKEN) ''pwd=abcdefgh@example.org,5555555555'' 0 = Some []"
  "execAll (gi PASSWORD) ''pwd=abcdefgh@example.org,5555555555'' 0 = Some [\<lparr>m_index = 0, m_end = 35, m_caps = [(1, 4, 35)]\<rparr>]"
  "execAll (gi EMAIL) ''pwd=abcdefgh@example.org,5555555555'' 0 = Some [\<lparr>m_index = 4, m_end = 24, m_caps = []\<rparr>]"
  "execAll (gi PHONE) ''pwd=abcdefgh@example.org,5555555555'' 0 = Some [\<lparr>m_index = 25, m_end = 35, m_caps = []\<rparr>]"
  "execAll (gi PRIVATE_IP) ''pwd=abcdefgh@example.org,5555555555'' 0 = Some []"
  "execAll (gi UUID) ''pwd=abcdefgh@example.org,5555555555'' 0 = Some []"
  supply matcher.simps [simp del] rep.simps [simp del]
  by (simp_all add: API_KEY_def ACCESS_TOKEN_def SECRET_KEY_def BEARER_TOKEN_def JWT_TOKEN_def PASSWORD_def EMAIL_def PHONE_def PRIVATE_IP_def UUID_def rx_eval cat_defs)

lemma toLowerCase_overlap:
  "toLowerCase ''pwd=abcdefgh@example.org,5555555555'' = ''pwd=abcdefgh@example.org,5555555555''"
  "toLowerCase ''abcdefgh@example.org,5555555555'' = ''abcdefgh@example.org,5555555555''"
  "toLowerCase ''abcdefgh@example.org'' = ''abcdefgh@example.org''"
  "toLowerCase ''5555555555'' = ''5555555555''"
  by code_simp+

lemma detected_overlap:
  "detected overlap_scores DEFAULT_DETECTION_CONFIG ''pwd=abcdefgh@example.org,5555555555''
     = Some
        [\<lparr>tok_value = ''pwd=abcdefgh@example.org,555555'', tok_type = ''PASSWORD'', startIndex = 0,
          endIndex = 31, confidence = 7 / 10\<rparr>,
         \<lparr>tok_value = ''abcdefgh@example.org'', tok_type = ''EMAIL'', startIndex = 4,
          endIndex = 24, confidence = 9 / 10\<rparr>,
         \<lparr>tok_value = ''5555555555'', tok_type = ''PHONE'', startIndex = 25,
          endIndex = 35, confidence = 1 / 2\<rparr>]"
  by (simp add: detect_eval toLowerCase_overlap execAll_overlap overlap_scores_def)

text \<open>
  Two overlapping candidates of which the one with the lower confidence is kept. On
  the text \<^verbatim>\<open>pwd=abcdefgh@example.org,5555555555\<close> the candidates are a password from 0
  to 31 with the score 0.7, an address from 4 to 24 with 0.9 and a phone number from 25
  to 35 with 0.5. The address takes the place of the password; the phone number
  overlaps the password only, which is no longer accepted, and is appended.
\<close>

theorem detectTokens_keeps_lower_of_overlapping_pair:
  "detected overlap_scores DEFAULT_DETECTION_CONFIG ''pwd=abcdefgh@example.org,5555555555''
     = Some
        [\<lparr>tok_value = ''pwd=abcdefgh@example.org,555555'', tok_type = ''PASSWORD'', startIndex = 0,
          endIndex = 31, confidence = 7 / 10\<rparr>,
         \<lparr>tok_value = ''abcdefgh@example.org'', tok_type = ''EMAIL'', startIndex = 4,
          endIndex = 24, confidence = 9 / 10\<rparr>,
         \<lparr>tok_value = ''5555555555'', tok_type = ''PHONE'', startIndex = 25,
          endIndex = 35, confidence = 1 / 2\<rparr>]
   \<and> detectTokens overlap_scores DEFAULT_DETECTION_CONFIG ''pwd=abcdefgh@example.org,5555555555''
     = Some
        [\<lparr>tok_value = ''abcdefgh@example.org'', tok_type = ''EMAIL'', startIndex = 4,
          endIndex = 24, confidence = 9 / 10\<rparr>,
         \<lparr>tok_value = ''5555555555'', tok_type = ''PHONE'', startIndex = 25,
          endIndex = 35, confidence = 1 / 2\<rparr>]
   \<and> spans_overlap
        \<lparr>tok_value = ''pwd=abcdefgh@example.org,555555'', tok_type = ''PASSWORD'', startIndex = 0,
          endIndex = 31, confidence = 7 / 10\<rparr>
        \<lparr>tok_value = ''5555555555'', tok_type = ''PHONE'', startIndex = 25,
          endIndex = 35, confidence = 1 / 2\<rparr>
   \<and> confidence
        \<lparr>tok_value = ''5555555555'', tok_type = ''PHONE'', startIndex = 25,
          endIndex = 35, confidence = 1 / 2\<rparr>
       < confidence
        \<lparr>tok_value = ''pwd=abcdefgh@example.org,555555'', tok_type = ''PASSWORD'', startIndex = 0,
          endIndex = 31, confidence = 7 / 10\<rparr>"
  by (simp add: dedup_eval detected_overlap spans_overlap_def)

subsection \<open>The constructor\<close>

lemma new_AnonEngine_Inr:
  assumes "new_AnonEngine newHashSaltStrategy cfg = Inr eng"
  shows "config eng = cfg" and "validateConfig (config eng) = Inr ()"
    and "eng_storage eng = new_MemoryStorage 10000 3600000"
    and "table_ok (eng_storage eng)"
  using assms
  by (auto simp: new_AnonEngine_def table_ok_new split: sum.splits StorageBackend.splits)

lemma new_AnonEngine_examples:
  "new_AnonEngine (HashSaltStrategy test_platform ''salt'') DEFAULT_CONFIG
     = Inr (test_engine DEFAULT_CONFIG)"
  "new_AnonEngine (HashSaltStrategy test_platform ''salt'') signed_config
     = Inr (test_engine signed_config)"
  by (simp_all add: new_AnonEngine_def validateConfig_def test_engine_def signed_config_def
      DEFAULT_CONFIG_def)

subsection \<open>The engine without signatures\<close>

lemma map_of_map_values:
  "map_of (map (\<lambda>(k, d). (k, g k d)) m) k = map_option (g k) (map_of m k)"
  by (induction m) auto

lemma jsmap_delete_map_values:
  "jsmap_delete (map (\<lambda>(k, d). (k, g k d)) m) k = map (\<lambda>(k, d). (k, g k d)) (jsmap_delete m k)"
  by (induction m) (auto simp: jsmap_delete_def)

lemma deanonymize_unsigned:
  assumes "\<not> enableSignatures (config eng)"
  shows "deanonymize p (with_stored_signatures f eng) now output mapId s1
           = (fst (deanonymize p' eng now output mapId s2),
              with_stored_signatures f (snd (deanonymize p' eng now output mapId s2)))"
  using assms
  by (auto simp: deanonymize_def retrieve_def with_stored_signatures_def jsmap_get_def
      map_of_map_values jsmap_delete_map_values split: option.splits)

lemma with_stored_signatures_id:
  "with_stored_signatures (\<lambda>k d. md_signature d) eng = eng"
proof -
  have "map (\<lambda>(k, d). (k, d\<lparr>md_signature := md_signature d\<rparr>)) m = m" for m :: "(string, MappingData) jsmap"
    by (induction m) auto
  then show ?thesis by (simp add: with_stored_signatures_def)
qed

lemma replace_from_eval:
  "replace_from pat r str i =
     (if i > length str then []
      else if take (length pat) (drop i str) = pat
      then expand r pat (take i str) (drop (i + length pat) str)
           @ (if pat = []
              then (if i < length str then str ! i # replace_from pat r str (Suc i) else [])
              else replace_from pat r str (i + length pat))
      else (if i < length str then str ! i # replace_from pat r str (Suc i) else []))"
  by (subst replace_from.simps) simp

text \<open>
  Claim C10. With \<^verbatim>\<open>enableSignatures = false\<close> the signature argument of
  \<^verbatim>\<open>deanonymize\<close> has no influence on the outcome: for any output and id, two calls
  with any two signature values, absent included, return the same value or the same
  error and leave the same engine; the digests play no part either. The signature of
  a stored mapping is never inspected: overwriting the signature field of every stored
  mapping changes neither the value nor the error, and the engines after the two calls
  differ in those fields only.
\<close>

theorem deanonymize_ignores_signature_when_disabled:
  assumes "\<not> enableSignatures (config eng)"
  shows "deanonymize p eng now output mapId s1 = deanonymize p' eng now output mapId s2
    \<and> fst (deanonymize p (with_stored_signatures f eng) now output mapId s1)
        = fst (deanonymize p eng now output mapId s2)
    \<and> snd (deanonymize p (with_stored_signatures f eng) now output mapId s1)
        = with_stored_signatures f (snd (deanonymize p eng now output mapId s2))"
  using deanonymize_unsigned [OF assms, of p f now "output" mapId s1 p s2]
    deanonymize_unsigned [OF assms, of p "\<lambda>k d. md_signature d" now "output" mapId s1 p' s2]
  by (simp add: with_stored_signatures_id)

theorem deanonymize_ignores_signature_when_disabled_witness:
  "\<not> enableSignatures (config (test_engine DEFAULT_CONFIG))
   \<and> deanonymize test_platform
       ((test_engine DEFAULT_CONFIG)
          \<lparr>eng_storage := \<lparr>ms_mappings = [(''id1'', example_mapping ''id1'')],
                            maxSize = 10000, ttlMs = 3600000\<rparr>\<rparr>)
       10 ''The key is anon_Zm9v.'' ''id1'' None
     = (Inr ''The key is secret-value.'',
        (test_engine DEFAULT_CONFIG)
          \<lparr>eng_storage := \<lparr>ms_mappings = [(''id1'', example_mapping ''id1'')],
                            maxSize = 10000, ttlMs = 3600000\<rparr>\<rparr>)
   \<and> deanonymize test_platform
       ((test_engine DEFAULT_CONFIG)
          \<lparr>eng_storage := \<lparr>ms_mappings = [(''id1'', example_mapping ''id1'')],
                            maxSize = 10000, ttlMs = 3600000\<rparr>\<rparr>)
       10 ''The key is anon_Zm9v.'' ''id1'' (Some ''forged'')
     = (Inr ''The key is secret-value.'',
        (test_engine DEFAULT_CONFIG)
          \<lparr>eng_storage := \<lparr>ms_mappings = [(''id1'', example_mapping ''id1'')],
                            maxSize = 10000, ttlMs = 3600000\<rparr>\<rparr>)"
proof -
  let ?eng = "(test_engine DEFAULT_CONFIG)
          \<lparr>eng_storage := \<lparr>ms_mappings = [(''id1'', example_mapping ''id1'')],
                            maxSize = 10000, ttlMs = 3600000\<rparr>\<rparr>"
  have off: "\<not> enableSignatures (config ?eng)"
    by (simp add: test_engine_def DEFAULT_CONFIG_def)
  have r: "replace_global ''anon_Zm9v'' ''secret-value'' ''The key is anon_Zm9v.'' = ''The key is secret-value.''"
    by (simp add: replace_global_def replace_from_eval)
  have a: "deanonymize test_platform ?eng 10 ''The key is anon_Zm9v.'' ''id1'' None
             = (Inr ''The key is secret-value.'', ?eng)"
    by (simp add: deanonymize_def retrieve_def jsmap_get_def example_mapping_def
        test_engine_def DEFAULT_CONFIG_def restore_all_def r)
  from deanonymize_ignores_signature_when_disabled [OF off, of test_platform 10
      "''The key is anon_Zm9v.''" "''id1''" None test_platform "Some ''forged''"] a
  show ?thesis by (simp add: test_engine_def DEFAULT_CONFIG_def)
qed

subsection \<open>Anonymize, then deanonymize\<close>

lemma constantTimeCompare_eq: "constantTimeCompare a b \<longleftrightarrow> a = b"
proof (cases "length a = length b")
  case True
  then show ?thesis
    using ctc_loop_fst [of a b 0 0] by (simp add: constantTimeCompare_def)
next
  case False
  then show ?thesis by (auto simp: constantTimeCompare_def)
qed

lemma store_retrieve:
  assumes id: "mapId \<noteq> []"
    and fresh: "\<not> (ttlMs st > 0 \<and> later - now > ttlMs st)"
    and s: "store st now mapId d = Inr st'"
  shows "retrieve st' later mapId = Inr (Some (d\<lparr>md_createdAt := now\<rparr>), st')"
proof -
  have g: "jsmap_get (ms_mappings st') mapId = Some (d\<lparr>md_createdAt := now\<rparr>)"
    using store_stamps [OF id, of st now d] s by auto
  have t: "ttlMs st' = ttlMs st"
    using s id by (auto simp: store_def Let_def)
  show ?thesis
    by (rule retrieve_fresh [OF id g]) (use fresh t in simp)
qed

lemma deanonymize_after_store:
  assumes s: "store (eng_storage eng) now newId d = Inr st'"
    and id: "newId \<noteq> []" and out: "output \<noteq> []"
    and fresh: "\<not> (ttlMs (eng_storage eng) > 0 \<and> later - now > ttlMs (eng_storage eng))"
  shows "deanonymize p (eng\<lparr>eng_storage := st'\<rparr>) later output newId sg =
     (case (if enableSignatures (config eng)
            then check_signature p (config eng) newId sg (d\<lparr>md_createdAt := now\<rparr>)
            else Inr ()) of
        Inl e \<Rightarrow> (Inl e, eng\<lparr>eng_storage := st'\<rparr>)
      | Inr _ \<Rightarrow> (Inr (if md_mappings d = [] then output else restore_all (md_mappings d) output),
                  eng\<lparr>eng_storage := st'\<rparr>))"
  using store_retrieve [OF id fresh s] id out
  by (simp add: deanonymize_def split: sum.splits)

lemma check_signature_error:
  "check_signature p cfg i sg d = Inl e \<Longrightarrow> \<exists>msg. e = SignatureError msg"
  by (auto simp: check_signature_def Let_def split: option.splits if_splits)

lemma check_signature_absent:
  "\<exists>msg. check_signature p cfg i None d = Inl (SignatureError msg)"
  by (simp add: check_signature_def)

lemma check_signature_unsigned:
  "md_signature d = None \<Longrightarrow> \<exists>msg. check_signature p cfg i sg d = Inl (SignatureError msg)"
  by (auto simp: check_signature_def split: option.splits)

lemma check_signature_mismatch:
  "Some s \<noteq> md_signature d \<Longrightarrow> \<exists>msg. check_signature p cfg i (Some s) d = Inl (SignatureError msg)"
  by (auto simp: check_signature_def constantTimeCompare_eq Let_def split: option.splits)

lemma check_signature_ok:
  assumes "md_signature d = Some sg" and "sg \<noteq> []"
    and "signatureSecret cfg = Some secret"
    and "sg = createHmac p (i @ '':'' @ json_entries (md_mappings d)) secret"
  shows "check_signature p cfg i (Some sg) d = Inr ()"
  using assms by (simp add: check_signature_def constantTimeCompare_eq verifyHmac_def Let_def)

lemma check_signature_tampered:
  assumes "signatureSecret cfg = Some secret"
    and "md_signature d \<noteq> Some (createHmac p (i @ '':'' @ json_entries (md_mappings d)) secret)"
  shows "\<exists>msg. check_signature p cfg i sg d = Inl (SignatureError msg)"
  using assms
  by (auto simp: check_signature_def constantTimeCompare_eq verifyHmac_def Let_def
      split: option.splits)

lemma anonymize_Inr:
  assumes a: "anonymize p sc eng now newId prompt = Some (Inr res, eng')"
  shows "\<exists>toks d st'. detectTokens (calculateConfidence sc) DEFAULT_DETECTION_CONFIG prompt = Some toks
      \<and> store (eng_storage eng) now newId d = Inr st' \<and> eng' = eng\<lparr>eng_storage := st'\<rparr>
      \<and> newId \<noteq> [] \<and> r_mapId res = newId
      \<and> (toks = [] \<longrightarrow> md_mappings d = [] \<and> md_signature d = None \<and> anonPrompt res = prompt)
      \<and> (toks \<noteq> [] \<longrightarrow> md_signature d = r_signature res)
      \<and> (if enableSignatures (config eng)
          then \<exists>secret. signatureSecret (config eng) = Some secret
             \<and> r_signature res = Some (createHmac p
                 (newId @ '':'' @ (if toks = [] then prompt else json_entries (md_mappings d))) secret)
          else r_signature res = None)"
proof -
  from a obtain toks where t: "detectTokens (calculateConfidence sc) DEFAULT_DETECTION_CONFIG prompt = Some toks"
    and pr: "prompt \<noteq> []"
    by (auto simp: anonymize_def split: if_splits option.splits)
  show ?thesis
  proof (cases "toks = []")
    case True
    let ?d = "\<lparr>md_id = newId, md_mappings = [], md_createdAt = now,
               md_signature = None, md_strategy = strategy (config eng)\<rparr>"
    from a t pr True obtain st' where st: "store (eng_storage eng) now newId ?d = Inr st'"
      by (auto simp: anonymize_def Let_def split: sum.splits)
    have id: "newId \<noteq> []" using st by (auto simp: store_def split: if_splits)
    from a t pr True st show ?thesis
      by (intro exI [of _ toks] exI [of _ ?d] exI [of _ st'])
        (auto simp: anonymize_def Let_def sign_def id split: sum.splits option.splits if_splits)
  next
    case False
    from a t pr False obtain mappings anonymized where
      rt: "replace_tokens p sc eng (sort_key (\<lambda>t. - int (startIndex t)) toks) [] prompt
             = Some (mappings, anonymized)"
      by (auto simp: anonymize_def Let_def split: option.splits)
    let ?d = "\<lparr>md_id = newId, md_mappings = mappings, md_createdAt = now,
               md_signature = r_signature res, md_strategy = strategy (config eng)\<rparr>"
    from a t pr False rt obtain st' where st: "store (eng_storage eng) now newId ?d = Inr st'"
      by (auto simp: anonymize_def Let_def sign_def split: sum.splits option.splits if_splits)
    have id: "newId \<noteq> []" using st by (auto simp: store_def split: if_splits)
    from a t pr False rt st show ?thesis
      by (intro exI [of _ toks] exI [of _ ?d] exI [of _ st'])
        (auto simp: anonymize_def Let_def sign_def id split: sum.splits option.splits if_splits)
  qed
qed

lemma anonymize_with_tokens:
  assumes pr: "prompt \<noteq> []"
    and t: "detectTokens (calculateConfidence sc) DEFAULT_DETECTION_CONFIG prompt = Some toks"
    and ne: "toks \<noteq> []"
    and rt: "replace_tokens p sc eng (sort_key (\<lambda>t. - int (startIndex t)) toks) [] prompt
               = Some (mappings, anonymized)"
    and sg: "if enableSignatures (config eng)
             then \<exists>secret. signatureSecret (config eng) = Some secret
                \<and> sg = Some (createHmac p (newId @ '':'' @ json_entries mappings) secret)
             else sg = None"
    and st: "store (eng_storage eng) now newId
               \<lparr>md_id = newId, md_mappings = mappings, md_createdAt = now,
                md_signature = sg, md_strategy = strategy (config eng)\<rparr> = Inr st'"
  shows "anonymize p sc eng now newId prompt
           = Some (Inr \<lparr>anonPrompt = anonymized, r_mapId = newId, r_signature = sg\<rparr>,
                   eng\<lparr>eng_storage := st'\<rparr>)"
  using assms by (auto simp: anonymize_def sign_def Let_def split: if_splits)

lemma retrieve_with_stored_entries:
  assumes "retrieve (eng_storage eng) later i = Inr (Some d, st)"
  shows "retrieve (eng_storage (with_stored_entries i entries eng)) later i
           = Inr (Some (d\<lparr>md_mappings := entries\<rparr>), eng_storage (with_stored_entries i entries eng))"
  using assms
  by (auto simp: retrieve_def with_stored_entries_def jsmap_get_def map_of_map_values
      split: if_splits option.splits)

lemma test_platform_values:
  "generateProxyToken test_platform ''key: sk-1234567890a'' ''salt'' ''anon_'' = ''anon_FxcXFxcXFxcXFxcX''"
  "generateProxyToken test_platform ''user@example.com'' ''salt'' ''anon_'' = ''anon_FBQUFBQUFBQUFBQU''"
  "createHmac test_platform
     (''map-1'' @ '':'' @ json_entries [(''anon_FxcXFxcXFxcXFxcX'', ''key: sk-1234567890a'')])
     ''test-secret-key'' = ''RkZGRkZGRkZGRkZGRkZGRkZGRkZGRkZGRkZGRkZGRkY=''"
  by code_simp+

lemma detectTokens_key_text:
  "detectTokens conf DEFAULT_DETECTION_CONFIG ''API key: sk-1234567890abcdef''
     = Some
        [if conf ''PHONE'' ''1234567890'' > conf ''API_KEY'' ''sk-1234567890abcdef''
         then \<lparr>tok_value = ''1234567890'', tok_type = ''PHONE'', startIndex = 12,
          endIndex = 22, confidence = conf ''PHONE'' ''1234567890''\<rparr>
         else \<lparr>tok_value = ''key: sk-1234567890a'', tok_type = ''API_KEY'', startIndex = 4,
          endIndex = 23, confidence = conf ''API_KEY'' ''sk-1234567890abcdef''\<rparr>]"
  by (simp add: dedup_eval detected_key_text)

text \<open>
  Claim C2. For a prompt in which the detector finds no tokens, \<^verbatim>\<open>anonymize\<close> of
  an engine built by the constructor returns the prompt unchanged under the fresh id
  and stores an empty mapping under it. While that mapping has not expired, an engine
  without signatures then returns every non-empty output unchanged. An engine with
  signatures has stored the empty mapping without a signature, so \<^verbatim>\<open>deanonymize\<close> with
  the id and the signature that \<^verbatim>\<open>anonymize\<close> returned raises a signature error: there
  the call is not a no-op.
\<close>

theorem anonymize_without_tokens_then_deanonymize:
  assumes none: "detectTokens (calculateConfidence sc) DEFAULT_DETECTION_CONFIG prompt = Some []"
    and pr: "prompt \<noteq> []" and id: "newId \<noteq> []" and out: "output \<noteq> []"
    and valid: "validateConfig (config eng) = Inr ()"
    and fresh: "\<not> (ttlMs (eng_storage eng) > 0 \<and> later - now > ttlMs (eng_storage eng))"
  shows "\<exists>res eng'. anonymize p sc eng now newId prompt = Some (Inr res, eng')
      \<and> anonPrompt res = prompt \<and> r_mapId res = newId
      \<and> map_option md_mappings (jsmap_get (ms_mappings (eng_storage eng')) newId) = Some []
      \<and> (if enableSignatures (config eng)
          then \<exists>msg. fst (deanonymize p eng' later output newId (r_signature res))
                 = Inl (SignatureError msg)
          else fst (deanonymize p eng' later output newId (r_signature res)) = Inr output)"
proof -
  let ?d = "\<lparr>md_id = newId, md_mappings = [], md_createdAt = now,
             md_signature = None, md_strategy = strategy (config eng)\<rparr>"
  obtain st' where st: "store (eng_storage eng) now newId ?d = Inr st'"
    and g: "jsmap_get (ms_mappings st') newId = Some (?d\<lparr>md_createdAt := now\<rparr>)"
    using store_stamps [OF id, of "eng_storage eng" now ?d] by blast
  let ?eng' = "eng\<lparr>eng_storage := st'\<rparr>"
  show ?thesis
  proof (cases "enableSignatures (config eng)")
    case True
    then obtain secret where sec: "signatureSecret (config eng) = Some secret"
      using valid by (auto simp: validateConfig_def split: if_splits)
    let ?res = "\<lparr>anonPrompt = prompt, r_mapId = newId,
                 r_signature = Some (createHmac p (newId @ '':'' @ prompt) secret)\<rparr>"
    have a: "anonymize p sc eng now newId prompt = Some (Inr ?res, ?eng')"
      using none pr st True sec by (simp add: anonymize_def sign_def)
    have "\<exists>msg. check_signature p (config eng) newId (r_signature ?res)
        (?d\<lparr>md_createdAt := now\<rparr>) = Inl (SignatureError msg)"
      by (rule check_signature_unsigned) simp
    then obtain msg where "check_signature p (config eng) newId (r_signature ?res)
        (?d\<lparr>md_createdAt := now\<rparr>) = Inl (SignatureError msg)" ..
    then have "fst (deanonymize p ?eng' later output newId (r_signature ?res))
        = Inl (SignatureError msg)"
      using deanonymize_after_store [OF st id out fresh] True by simp
    with a g True show ?thesis by auto
  next
    case False
    let ?res = "\<lparr>anonPrompt = prompt, r_mapId = newId, r_signature = None\<rparr>"
    have a: "anonymize p sc eng now newId prompt = Some (Inr ?res, ?eng')"
      using none pr st False by (simp add: anonymize_def)
    have "fst (deanonymize p ?eng' later output newId (r_signature ?res)) = Inr output"
      using deanonymize_after_store [OF st id out fresh] False by simp
    with a g False show ?thesis by auto
  qed
qed

theorem anonymize_without_tokens_then_deanonymize_witness:
  "validateConfig (config (test_engine signed_config)) = Inr ()
   \<and> detectTokens (calculateConfidence test_scoring) DEFAULT_DETECTION_CONFIG ''Simple prompt'' = Some []
   \<and> (\<exists>res eng'.
         anonymize test_platform test_scoring (test_engine signed_config) 1000 ''map-1'' ''Simple prompt''
           = Some (Inr res, eng')
         \<and> anonPrompt res = ''Simple prompt''
         \<and> (\<exists>msg. fst (deanonymize test_platform eng' 1000 ''This response has no proxy tokens''
                          ''map-1'' (r_signature res)) = Inl (SignatureError msg)))"
proof -
  have v: "validateConfig (config (test_engine signed_config)) = Inr ()"
    and on: "enableSignatures (config (test_engine signed_config))"
    by (simp_all add: validateConfig_def test_engine_def signed_config_def DEFAULT_CONFIG_def)
  have fresh: "\<not> (ttlMs (eng_storage (test_engine signed_config)) > 0
      \<and> 1000 - 1000 > ttlMs (eng_storage (test_engine signed_config)))"
    by (simp add: test_engine_def new_MemoryStorage_def)
  from anonymize_without_tokens_then_deanonymize
    [of test_scoring "''Simple prompt''" "''map-1''" "''This response has no proxy tokens''"
      "test_engine signed_config" 1000 1000 test_platform, OF detectTokens_plain _ _ _ v fresh] on
  show ?thesis
    using v detectTokens_plain [of "calculateConfidence test_scoring"] by auto
qed

text \<open>
  Claim C3. With \<^verbatim>\<open>enableSignatures = true\<close>, for the mapping that a successful
  \<^verbatim>\<open>anonymize\<close> has stored and that has not expired: \<^verbatim>\<open>deanonymize\<close> raises a
  signature error when the signature is absent, when it differs from the one
  \<^verbatim>\<open>anonymize\<close> returned, and, whatever the signature, when the stored entries were
  replaced by entries whose HMAC is not the returned signature. With the stored
  mapping untouched and the returned signature it raises a signature error exactly
  when the detector had found no tokens in the prompt (or the signature is the empty
  string): the mapping of a prompt without tokens is stored unsigned and can never be
  read back.
\<close>

theorem signature_error_after_anonymize:
  assumes on: "enableSignatures (config eng)"
    and a: "anonymize p sc eng now newId prompt = Some (Inr res, eng')"
    and out: "output \<noteq> []"
    and fresh: "\<not> (ttlMs (eng_storage eng) > 0 \<and> later - now > ttlMs (eng_storage eng))"
  shows "(\<exists>msg. fst (deanonymize p eng' later output (r_mapId res) None) = Inl (SignatureError msg))
    \<and> (\<forall>s. Some s \<noteq> r_signature res \<longrightarrow>
          (\<exists>msg. fst (deanonymize p eng' later output (r_mapId res) (Some s))
                    = Inl (SignatureError msg)))
    \<and> ((\<exists>msg. fst (deanonymize p eng' later output (r_mapId res) (r_signature res))
                  = Inl (SignatureError msg))
        \<longleftrightarrow> detectTokens (calculateConfidence sc) DEFAULT_DETECTION_CONFIG prompt = Some []
            \<or> r_signature res = Some [])
    \<and> (\<forall>entries s.
          (\<forall>secret. signatureSecret (config eng) = Some secret \<longrightarrow>
             r_signature res
               \<noteq> Some (createHmac p (r_mapId res @ '':'' @ json_entries entries) secret)) \<longrightarrow>
          (\<exists>msg. fst (deanonymize p (with_stored_entries (r_mapId res) entries eng') later output
                           (r_mapId res) s) = Inl (SignatureError msg)))"
proof -
  from anonymize_Inr [OF a] on obtain toks d st' secret where
    t: "detectTokens (calculateConfidence sc) DEFAULT_DETECTION_CONFIG prompt = Some toks"
    and st: "store (eng_storage eng) now newId d = Inr st'"
    and e: "eng' = eng\<lparr>eng_storage := st'\<rparr>"
    and id: "newId \<noteq> []" and rid: "r_mapId res = newId"
    and empty: "toks = [] \<longrightarrow> md_mappings d = [] \<and> md_signature d = None"
    and full: "toks \<noteq> [] \<longrightarrow> md_signature d = r_signature res"
    and sec: "signatureSecret (config eng) = Some secret"
    and sg: "r_signature res = Some (createHmac p
                 (newId @ '':'' @ (if toks = [] then prompt else json_entries (md_mappings d))) secret)"
    by auto
  let ?d = "d\<lparr>md_createdAt := now\<rparr>"
  have de: "fst (deanonymize p eng' later output (r_mapId res) s) =
      (case check_signature p (config eng) newId s ?d of
         Inl e \<Rightarrow> Inl e
       | Inr _ \<Rightarrow> Inr (if md_mappings d = [] then output else restore_all (md_mappings d) output))"
    for s
    using deanonymize_after_store [OF st id out fresh, of p s] on
    by (simp add: e rid split: sum.splits)
  have 1: "\<exists>msg. fst (deanonymize p eng' later output (r_mapId res) None) = Inl (SignatureError msg)"
    using check_signature_absent [of p "config eng" newId ?d] by (auto simp: de)
  have 2: "\<exists>msg. fst (deanonymize p eng' later output (r_mapId res) (Some s)) = Inl (SignatureError msg)"
    if "Some s \<noteq> r_signature res" for s
  proof (cases "toks = []")
    case True
    then show ?thesis
      using check_signature_unsigned [of ?d p "config eng" newId "Some s"] empty
      by (auto simp: de)
  next
    case False
    then show ?thesis
      using check_signature_mismatch [of s ?d p "config eng" newId] full that
      by (auto simp: de)
  qed
  have 3: "(\<exists>msg. fst (deanonymize p eng' later output (r_mapId res) (r_signature res))
                  = Inl (SignatureError msg))
        \<longleftrightarrow> detectTokens (calculateConfidence sc) DEFAULT_DETECTION_CONFIG prompt = Some []
            \<or> r_signature res = Some []"
  proof (cases "toks = []")
    case True
    then show ?thesis
      using check_signature_unsigned [of ?d p "config eng" newId "r_signature res"] empty t
      by (auto simp: de)
  next
    case False
    show ?thesis
    proof (cases "r_signature res = Some []")
      case True
      then show ?thesis
        by (auto simp: de check_signature_def)
    next
      case nonempty: False
      have "check_signature p (config eng) newId (r_signature res) ?d = Inr ()"
        unfolding sg
        by (rule check_signature_ok [OF _ _ sec])
          (use False full sg nonempty in auto)
      then show ?thesis
        using False t nonempty by (auto simp: de)
    qed
  qed
  have 4: "\<exists>msg. fst (deanonymize p (with_stored_entries (r_mapId res) entries eng') later output
                           (r_mapId res) s) = Inl (SignatureError msg)"
    if ne: "\<forall>secret. signatureSecret (config eng) = Some secret \<longrightarrow>
             r_signature res
               \<noteq> Some (createHmac p (r_mapId res @ '':'' @ json_entries entries) secret)"
    for entries s
  proof -
    let ?t = "?d\<lparr>md_mappings := entries\<rparr>"
    have r: "retrieve (eng_storage (with_stored_entries newId entries eng')) later newId
               = Inr (Some ?t, eng_storage (with_stored_entries newId entries eng'))"
      by (rule retrieve_with_stored_entries [where st = st'])
        (use store_retrieve [OF id fresh st] e in simp)
    have c: "config (with_stored_entries newId entries eng') = config eng"
      by (simp add: with_stored_entries_def e)
    have "md_signature ?t \<noteq> Some (createHmac p (newId @ '':'' @ json_entries (md_mappings ?t)) secret)"
    proof (cases "toks = []")
      case True
      then show ?thesis using empty by simp
    next
      case False
      then show ?thesis using full ne sec rid by simp
    qed
    then have "\<exists>msg. check_signature p (config eng) newId s ?t = Inl (SignatureError msg)"
      by (rule check_signature_tampered [OF sec])
    then obtain msg where "check_signature p (config eng) newId s ?t = Inl (SignatureError msg)" ..
    then have "fst (deanonymize p (with_stored_entries newId entries eng') later output newId s)
        = Inl (SignatureError msg)"
      using r c on id out by (simp add: deanonymize_def)
    then show ?thesis by (auto simp: rid)
  qed
  from 1 2 3 4 show ?thesis by blast
qed

theorem signature_error_after_anonymize_witness:
  "enableSignatures (config (test_engine signed_config))
   \<and> anonymize test_platform test_scoring (test_engine signed_config) 1000 ''map-1''
        ''API key: sk-1234567890abcdef''
      = Some (Inr \<lparr>anonPrompt = ''API anon_FxcXFxcXFxcXFxcXbcdef'', r_mapId = ''map-1'',
                   r_signature = Some ''RkZGRkZGRkZGRkZGRkZGRkZGRkZGRkZGRkZGRkZGRkY=''\<rparr>,
              (test_engine signed_config)
                \<lparr>eng_storage :=
                   \<lparr>ms_mappings =
                      [(''map-1'',
                        \<lparr>md_id = ''map-1'',
                         md_mappings = [(''anon_FxcXFxcXFxcXFxcX'', ''key: sk-1234567890a'')],
                         md_createdAt = 1000,
                         md_signature = Some ''RkZGRkZGRkZGRkZGRkZGRkZGRkZGRkZGRkZGRkZGRkY='',
                         md_strategy = HASH_SALT\<rparr>)],
                    maxSize = 10000, ttlMs = 3600000\<rparr>\<rparr>)
   \<and> (\<exists>msg. fst (deanonymize test_platform
         ((test_engine signed_config)
                \<lparr>eng_storage :=
                   \<lparr>ms_mappings =
                      [(''map-1'',
                        \<lparr>md_id = ''map-1'',
                         md_mappings = [(''anon_FxcXFxcXFxcXFxcX'', ''key: sk-1234567890a'')],
                         md_createdAt = 1000,
                         md_signature = Some ''RkZGRkZGRkZGRkZGRkZGRkZGRkZGRkZGRkZGRkZGRkY='',
                         md_strategy = HASH_SALT\<rparr>)],
                    maxSize = 10000, ttlMs = 3600000\<rparr>\<rparr>)
         2000 ''anon_FxcXFxcXFxcXFxcX'' ''map-1'' (Some ''forged'')) = Inl (SignatureError msg))"
proof -
  let ?eng = "test_engine signed_config"
  let ?sig = "''RkZGRkZGRkZGRkZGRkZGRkZGRkZGRkZGRkZGRkZGRkY=''"
  let ?d = "\<lparr>md_id = ''map-1'',
             md_mappings = [(''anon_FxcXFxcXFxcXFxcX'', ''key: sk-1234567890a'')],
             md_createdAt = 1000, md_signature = Some ?sig, md_strategy = HASH_SALT\<rparr>"
  let ?eng' = "?eng\<lparr>eng_storage := \<lparr>ms_mappings = [(''map-1'', ?d)],
                                      maxSize = 10000, ttlMs = 3600000\<rparr>\<rparr>"
  let ?res = "\<lparr>anonPrompt = ''API anon_FxcXFxcXFxcXFxcXbcdef'', r_mapId = ''map-1'',
                r_signature = Some ?sig\<rparr>"
  have on: "enableSignatures (config ?eng)"
    by (simp add: test_engine_def signed_config_def DEFAULT_CONFIG_def)
  have t: "detectTokens (calculateConfidence test_scoring) DEFAULT_DETECTION_CONFIG
             ''API key: sk-1234567890abcdef''
           = Some [\<lparr>tok_value = ''key: sk-1234567890a'', tok_type = ''API_KEY'', startIndex = 4,
                    endIndex = 23, confidence = 19 / 20\<rparr>]"
    by (simp add: detectTokens_key_text test_scoring_def)
  have rt: "replace_tokens test_platform test_scoring ?eng
              (sort_key (\<lambda>t. - int (startIndex t))
                 [\<lparr>tok_value = ''key: sk-1234567890a'', tok_type = ''API_KEY'', startIndex = 4,
                   endIndex = 23, confidence = 19 / 20\<rparr>]) [] ''API key: sk-1234567890abcdef''
            = Some ([(''anon_FxcXFxcXFxcXFxcX'', ''key: sk-1234567890a'')],
                    ''API anon_FxcXFxcXFxcXFxcXbcdef'')"
    by (simp add: strategy_anonymize_def test_engine_def signed_config_def DEFAULT_CONFIG_def
        HashSaltStrategy_def test_platform_values)
  have a: "anonymize test_platform test_scoring ?eng 1000 ''map-1'' ''API key: sk-1234567890abcdef''
             = Some (Inr ?res, ?eng')"
    by (rule anonymize_with_tokens [OF _ t _ rt, THEN trans])
      (simp_all add: test_platform_values(3) [simplified] test_engine_def signed_config_def
        DEFAULT_CONFIG_def store_def new_MemoryStorage_def jsmap_has_def)
  have fresh: "\<not> (ttlMs (eng_storage ?eng) > 0 \<and> 2000 - 1000 > ttlMs (eng_storage ?eng))"
    by (simp add: test_engine_def new_MemoryStorage_def)
  have out: "''anon_FxcXFxcXFxcXFxcX'' \<noteq> []" by simp
  from signature_error_after_anonymize [OF on a out fresh] on a
  show ?thesis by simp
qed

subsection \<open>Literal replacement\<close>

lemma expand_plain: "CHR ''$'' \<notin> set r \<Longrightarrow> expand r m b a = r"
  by (induction r m b a rule: expand.induct) auto

lemma take_eq_prefix: "(take (length pat) s = pat) = prefix pat s"
  by (auto simp: prefix_def) (metis append_take_drop_id)

lemma replace_from_shift:
  assumes "CHR ''$'' \<notin> set r"
  shows "replace_from pat r (u @ s) (length u + i) = replace_from pat r s i"
  using assms
proof (induction pat r s i rule: replace_from.induct)
  case (1 pat r s i)
  have L: "replace_from pat r (u @ s) (length u + i) =
     (if length u + i > length (u @ s) then []
      else if take (length pat) (drop (length u + i) (u @ s)) = pat
      then expand r pat (take (length u + i) (u @ s)) (drop (length u + i + length pat) (u @ s))
           @ (if pat = []
              then (if length u + i < length (u @ s)
                    then (u @ s) ! (length u + i) # replace_from pat r (u @ s) (Suc (length u + i))
                    else [])
              else replace_from pat r (u @ s) (length u + i + length pat))
      else (if length u + i < length (u @ s)
            then (u @ s) ! (length u + i) # replace_from pat r (u @ s) (Suc (length u + i))
            else []))"
    by (rule replace_from_eval)
  have R: "replace_from pat r s i =
     (if i > length s then []
      else if take (length pat) (drop i s) = pat
      then expand r pat (take i s) (drop (i + length pat) s)
           @ (if pat = []
              then (if i < length s then s ! i # replace_from pat r s (Suc i) else [])
              else replace_from pat r s (i + length pat))
      else (if i < length s then s ! i # replace_from pat r s (Suc i) else []))"
    by (rule replace_from_eval)
  show ?case
    unfolding L R using 1
    by (auto simp: expand_plain nth_append add.assoc)
qed

lemma replace_from_Nil: "pat \<noteq> [] \<Longrightarrow> replace_from pat r [] 0 = []"
  by (subst replace_from_eval) auto

lemma replace_from_match:
  assumes "pat \<noteq> []" "CHR ''$'' \<notin> set r"
  shows "replace_from pat r (pat @ t) 0 = r @ replace_from pat r t 0"
proof -
  have "replace_from pat r (pat @ t) (length pat + 0) = replace_from pat r t 0"
    by (rule replace_from_shift [OF assms(2)])
  then show ?thesis
    using assms by (subst replace_from_eval) (simp add: expand_plain)
qed

lemma replace_from_skip:
  assumes "pat \<noteq> []" "CHR ''$'' \<notin> set r" "\<not> prefix pat (c # t)"
  shows "replace_from pat r (c # t) 0 = c # replace_from pat r t 0"
proof -
  have "replace_from pat r ([c] @ t) (length [c] + 0) = replace_from pat r t 0"
    by (rule replace_from_shift [OF assms(2)])
  then show ?thesis
    using assms by (subst replace_from_eval) (simp add: take_eq_prefix)
qed

lemma isAlnum_not: "\<not> isAlnum CHR '' ''" "\<not> isAlnum CHR ''_''" "\<not> isAlnum CHR ''-''" "\<not> isAlnum CHR ''@''"
  by (simp_all add: isAlnum_def inRange_def)

lemma isAlnum_anon: "isAlnum CHR ''a''" "isAlnum CHR ''n''" "isAlnum CHR ''o''" "\<not> isAlnum CHR '',''"
  by (simp_all add: isAlnum_def inRange_def)

lemma no_proxy_in_alnum:
  assumes "list_all isAlnum x" and d: "\<not> isAlnum d" "d \<noteq> CHR ''_''"
  shows "\<not> prefix (''anon_'' @ y) (x @ d # t)"
proof
  assume p: "prefix (''anon_'' @ y) (x @ d # t)"
  then obtain zs where eq: "x @ d # t = ''anon_'' @ (y @ zs)"
    by (auto simp: prefix_def)
  have "(''anon_'' @ (y @ zs)) ! i = ''anon_'' ! i" if "i < 5" for i
    using that by (subst nth_append) simp
  then have n: "i < 5 \<Longrightarrow> (x @ d # t) ! i = ''anon_'' ! i" for i
    unfolding eq .
  show False
  proof (cases "length x < 5")
    case True
    then have "length x = 0 \<or> length x = 1 \<or> length x = 2 \<or> length x = 3 \<or> length x = 4"
      by arith
    then show False using n [OF True] d isAlnum_anon by (auto simp: nth_append)
  next
    case False
    then have "x ! 4 = CHR ''_''" using n [of 4] by (simp add: nth_append)
    moreover have "isAlnum (x ! 4)" using assms False by (simp add: list_all_length)
    ultimately show False by (simp add: isAlnum_not)
  qed
qed

lemma replace_from_alnum:
  assumes "list_all isAlnum x" "CHR ''$'' \<notin> set r" and d: "\<not> isAlnum d" "d \<noteq> CHR ''_''"
  shows "replace_from (''anon_'' @ y) r (x @ d # t) 0
           = x @ replace_from (''anon_'' @ y) r (d # t) 0"
  using assms(1)
proof (induction x)
  case Nil
  then show ?case by simp
next
  case (Cons c x)
  have "\<not> prefix (''anon_'' @ y) (c # (x @ d # t))"
    using no_proxy_in_alnum [OF Cons.prems d, of y t] by simp
  then have "replace_from (''anon_'' @ y) r (c # (x @ d # t)) 0
               = c # replace_from (''anon_'' @ y) r (x @ d # t) 0"
    by (intro replace_from_skip assms(2)) simp_all
  then show ?case using Cons by simp
qed

lemma prefix_alnum:
  assumes "list_all isAlnum a2" "prefix a2 (a1 @ d # t)" "\<not> isAlnum d"
  shows "prefix a2 a1"
proof -
  from assms(2) consider "prefix a2 a1" | us where "a2 = a1 @ us" "prefix us (d # t)"
    by (auto simp: prefix_append)
  then show ?thesis
  proof cases
    case 1
    then show ?thesis .
  next
    case 2
    show ?thesis
    proof (cases us)
      case Nil
      then show ?thesis using 2 by simp
    next
      case (Cons u us')
      then have "u = d" using 2 by simp
      then have "d \<in> set a2" using 2 Cons by simp
      then show ?thesis using assms(1,3) by (auto simp: list_all_iff)
    qed
  qed
qed

lemma restore_echoed_tokens:
  assumes a1: "list_all isAlnum a1" and a2: "list_all isAlnum a2"
    and np: "\<not> prefix a2 (a1 @ ''bcdef'')"
  shows "restore_all [(''anon_'' @ a2, ''user@example.com''), (''anon_'' @ a1, ''key: sk-1234567890a'')]
           ((''anon_'' @ a1 @ ''bcdef'') @ '' '' @ (''anon_'' @ a2))
         = ''key: sk-1234567890abcdef user@example.com''"
proof -
  let ?P1 = "''anon_'' @ a1" and ?P2 = "''anon_'' @ a2"
  let ?e = "''user@example.com''" and ?k = "''key: sk-1234567890a''"
  let ?x = "a1 @ ''bcdef''"
  have x: "list_all isAlnum ?x" using a1 by (simp add: isAlnum_def inRange_def)
  have d1: "CHR ''$'' \<notin> set ?e" and d2: "CHR ''$'' \<notin> set ?k" by simp_all
  have n0: "\<not> prefix ?P2 (''anon_'' @ ?x @ '' anon_'' @ a2)"
    using prefix_alnum [OF a2, of ?x "CHR '' ''" "''anon_'' @ a2"] np isAlnum_not by auto
  have s1: "replace_from ?P2 ?e (''anon_'' @ ?x @ '' anon_'' @ a2) 0
              = ''anon_'' @ replace_from ?P2 ?e (?x @ '' anon_'' @ a2) 0"
    using n0 by (simp add: replace_from_skip)
  have s2: "replace_from ?P2 ?e (?x @ '' anon_'' @ a2) 0
              = ?x @ replace_from ?P2 ?e ('' anon_'' @ a2) 0"
    using replace_from_alnum [OF x d1, of "CHR '' ''" a2 "''anon_'' @ a2"] isAlnum_not by simp
  have s3: "replace_from ?P2 ?e ('' anon_'' @ a2) 0 = '' '' @ replace_from ?P2 ?e (?P2 @ []) 0"
    by (simp add: replace_from_skip)
  have s4: "replace_from ?P2 ?e (?P2 @ []) 0 = ?e"
    by (subst replace_from_match) (simp_all add: replace_from_Nil)
  have step1: "replace_global ?P2 ?e ((''anon_'' @ a1 @ ''bcdef'') @ '' '' @ (''anon_'' @ a2))
                 = ?P1 @ ''bcdef '' @ ?e"
    unfolding replace_global_def using s1 s2 s3 s4 by simp
  have t1: "replace_from ?P1 ?k (?P1 @ ''bcdef '' @ ?e) 0
              = ?k @ replace_from ?P1 ?k (''bcdef '' @ ?e) 0"
    by (rule replace_from_match) simp_all
  have t2: "replace_from ?P1 ?k (''bcdef '' @ ?e) 0 = ''bcdef '' @ ?e"
    by (simp add: replace_from_skip replace_from_Nil)
  have step2: "replace_global ?P1 ?k (?P1 @ ''bcdef '' @ ?e) = ?k @ ''bcdef '' @ ?e"
    unfolding replace_global_def t1 t2 by simp
  show ?thesis
    unfolding restore_all_def using step1 step2 by simp
qed

lemma restore_anonPrompt:
  assumes a1: "list_all isAlnum a1" and a2: "list_all isAlnum a2"
    and np: "\<not> prefix a2 (a1 @ ''bcdef'')"
  shows "restore_all [(''anon_'' @ a2, ''user@example.com''), (''anon_'' @ a1, ''key: sk-1234567890a'')]
           (''API '' @ (''anon_'' @ a1 @ ''bcdef'') @ '', email: '' @ (''anon_'' @ a2))
         = ''API key: sk-1234567890abcdef, email: user@example.com''"
proof -
  let ?P1 = "''anon_'' @ a1" and ?P2 = "''anon_'' @ a2"
  let ?e = "''user@example.com''" and ?k = "''key: sk-1234567890a''"
  let ?x = "a1 @ ''bcdef''"
  have x: "list_all isAlnum ?x" using a1 by (simp add: isAlnum_def inRange_def)
  have d1: "CHR ''$'' \<notin> set ?e" and d2: "CHR ''$'' \<notin> set ?k" by simp_all
  have n0: "\<not> prefix ?P2 (''anon_'' @ ?x @ '', email: anon_'' @ a2)"
    using prefix_alnum [OF a2, of ?x "CHR '',''" "'' email: anon_'' @ a2"] np isAlnum_anon by auto
  have s0: "replace_from ?P2 ?e (''API '' @ ''anon_'' @ ?x @ '', email: anon_'' @ a2) 0
              = ''API '' @ replace_from ?P2 ?e (''anon_'' @ ?x @ '', email: anon_'' @ a2) 0"
    by (simp add: replace_from_skip)
  have s1: "replace_from ?P2 ?e (''anon_'' @ ?x @ '', email: anon_'' @ a2) 0
              = ''anon_'' @ replace_from ?P2 ?e (?x @ '', email: anon_'' @ a2) 0"
    using n0 by (simp add: replace_from_skip)
  have s2: "replace_from ?P2 ?e (?x @ '', email: anon_'' @ a2) 0
              = ?x @ replace_from ?P2 ?e ('', email: anon_'' @ a2) 0"
    using replace_from_alnum [OF x d1, of "CHR '',''" a2 "'' email: anon_'' @ a2"] isAlnum_anon
    by simp
  have s3: "replace_from ?P2 ?e ('', email: anon_'' @ a2) 0
              = '', email: '' @ replace_from ?P2 ?e (?P2 @ []) 0"
    by (simp add: replace_from_skip)
  have s4: "replace_from ?P2 ?e (?P2 @ []) 0 = ?e"
    by (subst replace_from_match) (simp_all add: replace_from_Nil)
  have step1: "replace_global ?P2 ?e (''API '' @ (''anon_'' @ a1 @ ''bcdef'') @ '', email: '' @ (''anon_'' @ a2))
                 = ''API '' @ ?P1 @ ''bcdef, email: '' @ ?e"
    unfolding replace_global_def using s0 s1 s2 s3 s4 by simp
  have t0: "replace_from ?P1 ?k (''API '' @ ?P1 @ ''bcdef, email: '' @ ?e) 0
              = ''API '' @ replace_from ?P1 ?k (?P1 @ ''bcdef, email: '' @ ?e) 0"
    by (simp add: replace_from_skip)
  have t1: "replace_from ?P1 ?k (?P1 @ ''bcdef, email: '' @ ?e) 0
              = ?k @ replace_from ?P1 ?k (''bcdef, email: '' @ ?e) 0"
    by (rule replace_from_match) simp_all
  have t2: "replace_from ?P1 ?k (''bcdef, email: '' @ ?e) 0 = ''bcdef, email: '' @ ?e"
    by (simp add: replace_from_skip replace_from_Nil)
  have step2: "replace_global ?P1 ?k (''API '' @ ?P1 @ ''bcdef, email: '' @ ?e)
                 = ''API '' @ ?k @ ''bcdef, email: '' @ ?e"
    unfolding replace_global_def t0 t1 t2 by simp
  show ?thesis
    unfolding restore_all_def using step1 step2 by simp
qed

subsection \<open>The proxy tokens of an anonymized prompt\<close>

lemma class_alnum: "class_matches False False alnum_class (of_char c) = isAlnum c"
  by (simp add: class_matches_def in_class_def alnum_class_def rng_def isAlnum_def inRange_def)

lemma isWordChar_alnum: "isAlnum c \<Longrightarrow> isWordChar (of_char c)"
  by (auto simp: isWordChar_def in_class_def isAlnum_def inRange_def)

lemma rep_alnum_run:
  assumes "list_all isAlnum x" "mn \<le> length x" "length x \<le> f" "stops rest"
  shows "rep f (matcher False (Cls False alnum_class)) mn None (\<lambda>s. Some s)
           (pw, i, map of_char x @ rest, caps)
         = Some (if x = [] then pw else True, i + length x, rest, caps)"
  using assms(1-3)
proof (induction x arbitrary: f mn pw i)
  case Nil
  then have mn: "mn = 0" by simp
  show ?case
  proof (cases f)
    case 0
    then show ?thesis using mn by simp
  next
    case (Suc f')
    have "matcher False (Cls False alnum_class) k (pw, i, rest, caps) = None" for k
      using assms(4) by (cases rest) (simp_all add: stops_def)
    then show ?thesis using mn Suc by (simp del: matcher.simps)
  qed
next
  case (Cons c x)
  then obtain f' where f: "f = Suc f'" and f': "length x \<le> f'" by (cases f) auto
  have c: "isAlnum c" and x: "list_all isAlnum x" using Cons.prems by simp_all
  have "rep f' (matcher False (Cls False alnum_class)) (mn - 1) None (\<lambda>s. Some s)
           (isWordChar (of_char c), Suc i, map of_char x @ rest, caps)
         = Some (if x = [] then isWordChar (of_char c) else True, Suc i + length x, rest, caps)"
    by (rule Cons.IH [OF x _ f']) (use Cons.prems in simp)
  then show ?case
    using c isWordChar_alnum [OF c]
    by (simp add: f class_alnum dec_def matcher_eval del: matcher.simps)
qed

lemma matcher_Eps: "matcher ic Eps k = k"
  by (rule ext) simp

lemma proxy_matcher:
  assumes "list_all isAlnum x" "x \<noteq> []" "stops rest"
  shows "matcher False (re_source PROXY_TOKEN) (\<lambda>s. Some s)
           (pw, i, map of_char (''anon_'' @ x) @ rest, [])
         = Some (True, i + 5 + length x, rest, [])"
proof -
  have r: "rep (1 + length (map of_char x @ rest)) (matcher False (Cls False alnum_class)) 1 None
             (\<lambda>s. Some s) (pw', j, map of_char x @ rest, [])
           = Some (True, j + length x, rest, [])" for pw' j
    using rep_alnum_run [OF assms(1) _ _ assms(3), of 1 "1 + length (map of_char x @ rest)" pw' j "[]"]
      assms(2)
    by (cases x) simp_all
  show ?thesis
    supply matcher.simps [simp del] rep.simps [simp del]
    using r
    by (simp add: PROXY_TOKEN_def matcher_eval matcher_Eps seq_def lit_def plus_def ch_def
        class_matches_def in_class_def)
qed

lemma PROXY_TOKEN_flags: "re_global PROXY_TOKEN" "\<not> re_ignoreCase PROXY_TOKEN"
  by (simp_all add: PROXY_TOKEN_def)

lemma stops_simps: "stops []" "stops (44 # cs)"
  by (simp_all add: stops_def class_matches_def in_class_def alnum_class_def rng_def)

lemma proxy_search_hit:
  assumes "list_all isAlnum x" "x \<noteq> []" "stops rest"
  shows "search False (re_source PROXY_TOKEN) pw i
           (97 # 110 # 111 # 110 # 95 # map of_char x @ rest)
         = Some \<lparr>m_index = i, m_end = i + 5 + length x, m_caps = []\<rparr>"
  using proxy_matcher [OF assms, of pw i] by (simp del: matcher.simps)

lemma proxy_search_hit_end:
  assumes "list_all isAlnum x" "x \<noteq> []"
  shows "search False (re_source PROXY_TOKEN) pw i (97 # 110 # 111 # 110 # 95 # map of_char x)
         = Some \<lparr>m_index = i, m_end = i + 5 + length x, m_caps = []\<rparr>"
  using proxy_search_hit [OF assms stops_simps(1), of pw i] by simp

lemma proxy_search_skip:
  "c \<noteq> 97 \<Longrightarrow> search False (re_source PROXY_TOKEN) pw i (c # cs)
     = search False (re_source PROXY_TOKEN) (isWordChar c) (Suc i) cs"
  "d \<noteq> 110 \<Longrightarrow> search False (re_source PROXY_TOKEN) pw i (97 # d # cs)
     = search False (re_source PROXY_TOKEN) (isWordChar 97) (Suc i) (d # cs)"
  "search False (re_source PROXY_TOKEN) pw i [] = None"
  supply matcher.simps [simp del] rep.simps [simp del]
  by (simp_all add: PROXY_TOKEN_def matcher_eval seq_def lit_def plus_def ch_def
      class_matches_def in_class_def)

lemma proxy_tokens_two:
  assumes x: "list_all isAlnum x" "x \<noteq> []" and a2: "list_all isAlnum a2" "a2 \<noteq> []"
  shows "proxy_tokens (''API '' @ (''anon_'' @ x) @ '', email: '' @ (''anon_'' @ a2))
           = Some [''anon_'' @ x, ''anon_'' @ a2]"
proof -
  define s where "s = ''API '' @ (''anon_'' @ x) @ '', email: '' @ (''anon_'' @ a2)"
  define n1 where "n1 = 9 + length x"
  define n2 where "n2 = n1 + 14 + length a2"
  have len: "length s = n2" by (simp add: s_def n1_def n2_def)
  have m0: "(map of_char s :: nat list)
      = 65 # 80 # 73 # 32 # 97 # 110 # 111 # 110 # 95 # map of_char x
        @ (44 # 32 # 101 # 109 # 97 # 105 # 108 # 58 # 32 # 97 # 110 # 111 # 110 # 95 # map of_char a2)"
    by (simp add: s_def)
  have m1: "drop n1 (map of_char s :: nat list)
      = 44 # 32 # 101 # 109 # 97 # 105 # 108 # 58 # 32 # 97 # 110 # 111 # 110 # 95 # map of_char a2"
  proof -
    let ?u = "map of_char (''API anon_'' @ x) :: nat list"
    let ?v = "44 # 32 # 101 # 109 # 97 # 105 # 108 # 58 # 32 # 97 # 110 # 111 # 110 # 95 # map of_char a2
              :: nat list"
    have e: "map of_char s = ?u @ ?v" by (simp add: s_def)
    have l: "length ?u = n1" by (simp add: n1_def)
    have "drop (length ?u) (?u @ ?v) = ?v" by (rule append_eq_conv_conj [THEN iffD1, THEN conjunct2, symmetric]) (rule refl)
    then show ?thesis unfolding e [symmetric] l .
  qed
  have m2: "drop n2 (map of_char s :: nat list) = []" using len by simp
  have E1: "exec PROXY_TOKEN s 0 = Some \<lparr>m_index = 4, m_end = n1, m_caps = []\<rparr>"
    supply search.simps [simp del] matcher.simps [simp del]
    by (simp add: exec_def PROXY_TOKEN_flags m0 proxy_search_skip n1_def
        proxy_search_hit [OF x stops_simps(2)])
  have E2: "exec PROXY_TOKEN s n1 = Some \<lparr>m_index = n1 + 9, m_end = n2, m_caps = []\<rparr>"
    supply search.simps [simp del] matcher.simps [simp del]
    using len
    by (simp add: exec_def PROXY_TOKEN_flags m1 proxy_search_skip n2_def
        proxy_search_hit_end [OF a2])
  have E3: "exec PROXY_TOKEN s n2 = None"
    supply search.simps [simp del] matcher.simps [simp del]
    using len by (simp add: exec_def PROXY_TOKEN_flags m2 proxy_search_skip)
  have A3: "execAll PROXY_TOKEN s n2 = Some []"
    by (subst execAll.simps) (simp add: E3)
  have lt: "0 < n1" "n1 < n2" by (simp_all add: n1_def n2_def)
  have A2: "execAll PROXY_TOKEN s n1 = Some [\<lparr>m_index = n1 + 9, m_end = n2, m_caps = []\<rparr>]"
    by (subst execAll.simps) (simp add: E2 A3 PROXY_TOKEN_flags lt)
  have A1: "execAll PROXY_TOKEN s 0
      = Some [\<lparr>m_index = 4, m_end = n1, m_caps = []\<rparr>,
              \<lparr>m_index = n1 + 9, m_end = n2, m_caps = []\<rparr>]"
    by (subst execAll.simps) (simp add: E1 A2 PROXY_TOKEN_flags lt)
  have sub: "substring s a b = take (b - a) (drop a s)" if "a \<le> b" for a b
    using that by (simp add: substring_def max_def min_def)
  have t1: "substring s 4 n1 = ''anon_'' @ x"
  proof -
    let ?u = "''anon_'' @ x"
    let ?v = "'', email: '' @ (''anon_'' @ a2)"
    have d: "drop 4 s = ?u @ ?v" by (simp add: s_def)
    have l: "n1 - 4 = length ?u" by (simp add: n1_def)
    have "take (length ?u) (?u @ ?v) = ?u"
      by (rule append_eq_conv_conj [THEN iffD1, THEN conjunct1, symmetric]) (rule refl)
    then have "take (n1 - 4) (drop 4 s) = ?u" unfolding d l .
    moreover have "4 \<le> n1" by (simp add: n1_def)
    ultimately show ?thesis by (simp only: sub)
  qed
  have t2: "substring s (n1 + 9) n2 = ''anon_'' @ a2"
  proof -
    let ?u = "''API anon_'' @ x @ '', email: ''"
    let ?v = "''anon_'' @ a2"
    have e: "s = ?u @ ?v" by (simp add: s_def)
    have l: "length ?u = n1 + 9" by (simp add: n1_def)
    have "drop (length ?u) (?u @ ?v) = ?v"
      by (rule append_eq_conv_conj [THEN iffD1, THEN conjunct2, symmetric]) (rule refl)
    then have d: "drop (n1 + 9) s = ?v" unfolding e [symmetric] l .
    have l2: "n2 - (n1 + 9) = length ?v" by (simp add: n2_def)
    have "take (n2 - (n1 + 9)) (drop (n1 + 9) s) = ?v" unfolding d l2 by simp
    moreover have "n1 + 9 \<le> n2" by (simp add: n2_def)
    ultimately show ?thesis by (simp only: sub)
  qed
  show ?thesis
    unfolding s_def [symmetric] by (simp add: proxy_tokens_def A1 match_text_def t1 t2)
qed

subsection \<open>The example scenario\<close>

lemma strategy_DEFAULT_CONFIG:
  "strategy DEFAULT_CONFIG = HASH_SALT" "\<not> enableSignatures DEFAULT_CONFIG"
  by (simp_all add: DEFAULT_CONFIG_def)

lemma example_texts:
  "str_includes ''key: sk-1234567890abcdef user@example.com'' ''sk-1234567890abcdef''"
  "str_includes ''key: sk-1234567890abcdef user@example.com'' ''user@example.com''"
  "list_all isAlnum ''FxcXFxcXFxcXFxcX''"
  "list_all isAlnum ''FBQUFBQUFBQUFBQU''"
  by code_simp+

lemma str_includes_char:
  "str_includes s t \<Longrightarrow> c \<in> set t \<Longrightarrow> c \<in> set s"
  using set_mono_sublist by (auto simp: str_includes_def)

text \<open>
  Claim C1. The example scenario on an engine with the default configuration, for
  every hash strategy that answers the two tokens with \<^verbatim>\<open>anon_\<close> followed by
  alphanumeric characters (\<open>a1\<close> for the key, \<open>a2\<close> for the address, \<open>a2\<close> not a prefix
  of \<open>a1\<close> followed by \<^verbatim>\<open>bcdef\<close>), and for every scoring that does not set the phone
  candidate \<^verbatim>\<open>1234567890\<close> above the API key candidate. \<^verbatim>\<open>anonymize\<close> returns
  \<^verbatim>\<open>API \<close>, a first token, \<^verbatim>\<open>, email: \<close> and a second token; these two are the
  matches of \<^verbatim>\<open>/anon_[a-zA-Z0-9]+/g\<close> in the anonymized prompt, and the prompt holds neither
  \<^verbatim>\<open>sk-1234567890abcdef\<close> nor \<^verbatim>\<open>user@example.com\<close>. \<^verbatim>\<open>deanonymize\<close> of the text made of
  the two tokens with a blank between them, under the returned id and signature
  (there is none), returns \<^verbatim>\<open>key: sk-1234567890abcdef user@example.com\<close>, which holds
  both original substrings; \<^verbatim>\<open>deanonymize\<close> of the whole anonymized prompt returns the
  original prompt.
\<close>

theorem example_round_trip:
  assumes conf: "\<not> calculateConfidence sc ''PHONE'' ''1234567890''
                    > calculateConfidence sc ''API_KEY'' ''sk-1234567890abcdef''"
    and cfg: "config eng = DEFAULT_CONFIG"
    and P1: "hashSaltStrategy eng ''key: sk-1234567890a'' DEFAULT_CONFIG = Some (''anon_'' @ a1)"
    and P2: "hashSaltStrategy eng ''user@example.com'' DEFAULT_CONFIG = Some (''anon_'' @ a2)"
    and a1: "list_all isAlnum a1" and a2: "list_all isAlnum a2"
    and np: "\<not> prefix a2 (a1 @ ''bcdef'')"
    and id: "newId \<noteq> []"
    and fresh: "\<not> (ttlMs (eng_storage eng) > 0 \<and> later - now > ttlMs (eng_storage eng))"
  shows "\<exists>eng'.
      anonymize p sc eng now newId ''API key: sk-1234567890abcdef, email: user@example.com''
        = Some (Inr \<lparr>anonPrompt = ''API '' @ (''anon_'' @ a1 @ ''bcdef'') @ '', email: ''
                                   @ (''anon_'' @ a2),
                     r_mapId = newId, r_signature = None\<rparr>, eng')
      \<and> proxy_tokens (''API '' @ (''anon_'' @ a1 @ ''bcdef'') @ '', email: '' @ (''anon_'' @ a2))
          = Some [''anon_'' @ a1 @ ''bcdef'', ''anon_'' @ a2]
      \<and> matches_anon_format (''anon_'' @ a1 @ ''bcdef'')
      \<and> matches_anon_format (''anon_'' @ a2)
      \<and> \<not> str_includes (''API '' @ (''anon_'' @ a1 @ ''bcdef'') @ '', email: '' @ (''anon_'' @ a2))
            ''sk-1234567890abcdef''
      \<and> \<not> str_includes (''API '' @ (''anon_'' @ a1 @ ''bcdef'') @ '', email: '' @ (''anon_'' @ a2))
            ''user@example.com''
      \<and> fst (deanonymize p eng' later ((''anon_'' @ a1 @ ''bcdef'') @ '' '' @ (''anon_'' @ a2))
               newId None)
          = Inr ''key: sk-1234567890abcdef user@example.com''
      \<and> str_includes ''key: sk-1234567890abcdef user@example.com'' ''sk-1234567890abcdef''
      \<and> str_includes ''key: sk-1234567890abcdef user@example.com'' ''user@example.com''
      \<and> fst (deanonymize p eng' later
               (''API '' @ (''anon_'' @ a1 @ ''bcdef'') @ '', email: '' @ (''anon_'' @ a2))
               newId None)
          = Inr ''API key: sk-1234567890abcdef, email: user@example.com''"
proof -
  let ?prompt = "''API key: sk-1234567890abcdef, email: user@example.com''"
  let ?api = "\<lparr>tok_value = ''key: sk-1234567890a'', tok_type = ''API_KEY'', startIndex = 4,
          endIndex = 23, confidence = calculateConfidence sc ''API_KEY'' ''sk-1234567890abcdef''\<rparr>"
  let ?email = "\<lparr>tok_value = ''user@example.com'', tok_type = ''EMAIL'', startIndex = 37,
          endIndex = 53, confidence = calculateConfidence sc ''EMAIL'' ''user@example.com''\<rparr>"
  let ?mappings = "[(''anon_'' @ a2, ''user@example.com''), (''anon_'' @ a1, ''key: sk-1234567890a'')]"
  let ?T1 = "''anon_'' @ a1 @ ''bcdef''" and ?T2 = "''anon_'' @ a2"
  let ?anon = "''API '' @ ?T1 @ '', email: '' @ ?T2"
  let ?d = "\<lparr>md_id = newId, md_mappings = ?mappings, md_createdAt = now,
             md_signature = None, md_strategy = strategy (config eng)\<rparr>"
  have t: "detectTokens (calculateConfidence sc) DEFAULT_DETECTION_CONFIG ?prompt = Some [?api, ?email]"
    using conf by (simp add: detectTokens_prompt)
  have ne: "a1 \<noteq> a2" and ne2: "a2 \<noteq> []" using np by auto
  have rt: "replace_tokens p sc eng (sort_key (\<lambda>t. - int (startIndex t)) [?api, ?email]) [] ?prompt
              = Some (?mappings, ?anon)"
    using ne by (simp add: strategy_anonymize_def cfg strategy_DEFAULT_CONFIG P1 P2)
  obtain st' where st: "store (eng_storage eng) now newId ?d = Inr st'"
    using store_stamps [OF id, of "eng_storage eng" now ?d] by blast
  let ?eng' = "eng\<lparr>eng_storage := st'\<rparr>"
  have a: "anonymize p sc eng now newId ?prompt
             = Some (Inr \<lparr>anonPrompt = ?anon, r_mapId = newId, r_signature = None\<rparr>, ?eng')"
    by (rule anonymize_with_tokens [OF _ t _ rt _ st])
      (simp_all add: cfg strategy_DEFAULT_CONFIG)
  have f1: "matches_anon_format ?T1" and f2: "matches_anon_format ?T2"
    using a1 a2 ne2 by (simp_all add: matches_anon_format_def isAlnum_def inRange_def)
  have x: "list_all isAlnum (a1 @ ''bcdef'')" "a1 @ ''bcdef'' \<noteq> []"
    using a1 by (simp_all add: isAlnum_def inRange_def)
  have pt: "proxy_tokens ?anon = Some [?T1, ?T2]"
    by (rule proxy_tokens_two [OF x a2 ne2])
  have de: "fst (deanonymize p ?eng' later out newId None) = Inr (restore_all ?mappings out)"
    if "out \<noteq> []" for out
    using deanonymize_after_store [OF st id that fresh, of p None]
    by (simp add: cfg strategy_DEFAULT_CONFIG)
  have de1: "fst (deanonymize p ?eng' later (?T1 @ '' '' @ ?T2) newId None)
               = Inr ''key: sk-1234567890abcdef user@example.com''"
    by (subst de) (simp_all only: restore_echoed_tokens [OF a1 a2 np], simp)
  have de2: "fst (deanonymize p ?eng' later ?anon newId None) = Inr ?prompt"
    by (subst de) (simp_all only: restore_anonPrompt [OF a1 a2 np], simp)
  have al: "c \<in> set ?anon \<Longrightarrow> c \<in> set ''API anon_bcdef, email: '' \<or> isAlnum c" for c
    using a1 a2 by (auto simp: list_all_iff)
  have k: "\<not> str_includes ?anon ''sk-1234567890abcdef''"
  proof
    assume "str_includes ?anon ''sk-1234567890abcdef''"
    then have "CHR ''-'' \<in> set ?anon" by (rule str_includes_char) simp
    then show False using al [of "CHR ''-''"] by (simp add: isAlnum_not)
  qed
  have m: "\<not> str_includes ?anon ''user@example.com''"
  proof
    assume "str_includes ?anon ''user@example.com''"
    then have "CHR ''@'' \<in> set ?anon" by (rule str_includes_char) simp
    then show False using al [of "CHR ''@''"] by (simp add: isAlnum_not)
  qed
  show ?thesis
    by (intro exI [of _ ?eng'] conjI a pt f1 f2 k m de1 de2 example_texts(1,2))
qed

lemma proxy_tokens_example:
  "proxy_tokens ''API anon_FxcXFxcXFxcXFxcXbcdef, email: anon_FBQUFBQUFBQUFBQU''
     = Some [''anon_FxcXFxcXFxcXFxcXbcdef'', ''anon_FBQUFBQUFBQUFBQU'']"
proof -
  have "execAll PROXY_TOKEN ''API anon_FxcXFxcXFxcXFxcXbcdef, email: anon_FBQUFBQUFBQUFBQU'' 0
          = Some [\<lparr>m_index = 4, m_end = 30, m_caps = []\<rparr>, \<lparr>m_index = 39, m_end = 60, m_caps = []\<rparr>]"
    supply matcher.simps [simp del] rep.simps [simp del]
    by (simp add: PROXY_TOKEN_def rx_eval cat_defs)
  then show ?thesis
    by (simp add: proxy_tokens_def match_text_def substring_def)
qed

theorem example_round_trip_witness:
  "\<not> calculateConfidence test_scoring ''PHONE'' ''1234567890''
        > calculateConfidence test_scoring ''API_KEY'' ''sk-1234567890abcdef''
   \<and> hashSaltStrategy (test_engine DEFAULT_CONFIG) ''key: sk-1234567890a'' DEFAULT_CONFIG
       = Some ''anon_FxcXFxcXFxcXFxcX''
   \<and> hashSaltStrategy (test_engine DEFAULT_CONFIG) ''user@example.com'' DEFAULT_CONFIG
       = Some ''anon_FBQUFBQUFBQUFBQU''
   \<and> proxy_tokens ''API anon_FxcXFxcXFxcXFxcXbcdef, email: anon_FBQUFBQUFBQUFBQU''
       = Some [''anon_FxcXFxcXFxcXFxcXbcdef'', ''anon_FBQUFBQUFBQUFBQU'']
   \<and> (\<exists>eng'.
      anonymize test_platform test_scoring (test_engine DEFAULT_CONFIG) 1000 ''map-1''
          ''API key: sk-1234567890abcdef, email: user@example.com''
        = Some (Inr \<lparr>anonPrompt = ''API anon_FxcXFxcXFxcXFxcXbcdef, email: anon_FBQUFBQUFBQUFBQU'',
                     r_mapId = ''map-1'', r_signature = None\<rparr>, eng')
      \<and> fst (deanonymize test_platform eng' 2000
               ''anon_FxcXFxcXFxcXFxcXbcdef anon_FBQUFBQUFBQUFBQU'' ''map-1'' None)
          = Inr ''key: sk-1234567890abcdef user@example.com''
      \<and> fst (deanonymize test_platform eng' 2000
               ''API anon_FxcXFxcXFxcXFxcXbcdef, email: anon_FBQUFBQUFBQUFBQU'' ''map-1'' None)
          = Inr ''API key: sk-1234567890abcdef, email: user@example.com'')"
proof -
  let ?eng = "test_engine DEFAULT_CONFIG"
  have conf: "\<not> calculateConfidence test_scoring ''PHONE'' ''1234567890''
        > calculateConfidence test_scoring ''API_KEY'' ''sk-1234567890abcdef''"
    by (simp add: test_scoring_def)
  have cfg: "config ?eng = DEFAULT_CONFIG" by (simp add: test_engine_def)
  have P1: "hashSaltStrategy ?eng ''key: sk-1234567890a'' DEFAULT_CONFIG
              = Some (''anon_'' @ ''FxcXFxcXFxcXFxcX'')"
    and P2: "hashSaltStrategy ?eng ''user@example.com'' DEFAULT_CONFIG
              = Some (''anon_'' @ ''FBQUFBQUFBQUFBQU'')"
    by (simp_all add: test_engine_def HashSaltStrategy_def DEFAULT_CONFIG_def test_platform_values)
  have np: "\<not> prefix ''FBQUFBQUFBQUFBQU'' (''FxcXFxcXFxcXFxcX'' @ ''bcdef'')" by simp
  have id: "''map-1'' \<noteq> []" by simp
  have fresh: "\<not> (ttlMs (eng_storage ?eng) > 0 \<and> 2000 - 1000 > ttlMs (eng_storage ?eng))"
    by (simp add: test_engine_def new_MemoryStorage_def)
  from example_round_trip
    [OF conf cfg P1 P2 example_texts(3) example_texts(4) np id fresh, of test_platform]
    conf P1 P2 proxy_tokens_example
  show ?thesis by auto
qed

subsection \<open>Value and span of a detected token\<close>

text \<open>
  Claim C5. On the text \<^verbatim>\<open>API key: sk-1234567890abcdef\<close> the pattern \<^verbatim>\<open>API_KEY\<close>
  matches once, from 4 to 28, with its capturing group from 9 to 28, the text
  \<^verbatim>\<open>sk-1234567890abcdef\<close>. The token built from that match has the span from 4 to 23
  and the value \<^verbatim>\<open>key: sk-1234567890a\<close>: the length of the group, counted from the start
  of the match. \<^verbatim>\<open>detectTokens\<close> with the default configuration returns that token,
  or the phone candidate \<^verbatim>\<open>1234567890\<close> inside it when that one scores higher; in
  neither case is the value the text of the capturing group.
\<close>

theorem detectTokens_value_is_not_the_group:
  "execAll (gi API_KEY) (toLowerCase ''API key: sk-1234567890abcdef'') 0
     = Some [\<lparr>m_index = 4, m_end = 28, m_caps = [(1, 9, 28)]\<rparr>]
   \<and> match_group (toLowerCase ''API key: sk-1234567890abcdef'')
         \<lparr>m_index = 4, m_end = 28, m_caps = [(1, 9, 28)]\<rparr> 1 = Some ''sk-1234567890abcdef''
   \<and> pattern_token conf DEFAULT_DETECTION_CONFIG ''API key: sk-1234567890abcdef''
         (toLowerCase ''API key: sk-1234567890abcdef'') ''API_KEY''
         \<lparr>m_index = 4, m_end = 28, m_caps = [(1, 9, 28)]\<rparr>
       = Some \<lparr>tok_value = ''key: sk-1234567890a'', tok_type = ''API_KEY'', startIndex = 4,
                endIndex = 23, confidence = conf ''API_KEY'' ''sk-1234567890abcdef''\<rparr>
   \<and> detectTokens conf DEFAULT_DETECTION_CONFIG ''API key: sk-1234567890abcdef''
     = Some
        [if conf ''PHONE'' ''1234567890'' > conf ''API_KEY'' ''sk-1234567890abcdef''
         then \<lparr>tok_value = ''1234567890'', tok_type = ''PHONE'', startIndex = 12,
          endIndex = 22, confidence = conf ''PHONE'' ''1234567890''\<rparr>
         else \<lparr>tok_value = ''key: sk-1234567890a'', tok_type = ''API_KEY'', startIndex = 4,
          endIndex = 23, confidence = conf ''API_KEY'' ''sk-1234567890abcdef''\<rparr>]
   \<and> substring ''API key: sk-1234567890abcdef'' 9 28 = ''sk-1234567890abcdef''
   \<and> substring ''API key: sk-1234567890abcdef'' 4 23 = ''key: sk-1234567890a''"
proof -
  have "pattern_token conf DEFAULT_DETECTION_CONFIG ''API key: sk-1234567890abcdef''
         ''api key: sk-1234567890abcdef'' ''API_KEY''
         \<lparr>m_index = 4, m_end = 28, m_caps = [(1, 9, 28)]\<rparr>
       = Some \<lparr>tok_value = ''key: sk-1234567890a'', tok_type = ''API_KEY'', startIndex = 4,
                endIndex = 23, confidence = conf ''API_KEY'' ''sk-1234567890abcdef''\<rparr>"
    by (simp add: toLowerCase_texts pattern_token_def DEFAULT_DETECTION_CONFIG_def
        match_group_def match_text_def substring_def Let_def)
  moreover have "match_group ''api key: sk-1234567890abcdef''
         \<lparr>m_index = 4, m_end = 28, m_caps = [(1, 9, 28)]\<rparr> 1 = Some ''sk-1234567890abcdef''"
    by (simp add: match_group_def substring_def)
  moreover have "substring ''API key: sk-1234567890abcdef'' 9 28 = ''sk-1234567890abcdef''"
    "substring ''API key: sk-1234567890abcdef'' 4 23 = ''key: sk-1234567890a''"
    by (simp_all add: substring_def)
  ultimately show ?thesis
    by (simp only: toLowerCase_texts execAll_key_text detectTokens_key_text simp_thms)
qed

subsection \<open>Proxy tokens\<close>




end
